theory Spec2Isabelle
  imports Complex_Main "HOL-Library.Log_Nat" "HOL-Library.AList"
begin

section \<open>JavaScript numbers\<close>

text \<open>
  Every number of \<^verbatim>\<open>server.js\<close> is an IEEE 754 double. A double is modelled by its exact
  value: \<open>Fin r\<close> for a finite one (\<open>r\<close> a rational that the format holds), \<open>PInf\<close> and
  \<open>NInf\<close> for the infinities, \<open>NaN\<close>. The two zeros are one value, \<open>Fin 0\<close>: the program
  never divides by a zero and never prints one except through \<^verbatim>\<open>toFixed\<close> and JSON, which
  write both as \<^verbatim>\<open>0\<close>.

  \<open>to_double x\<close> is the double nearest to the rational \<open>x\<close>, ties going to the even
  significand: 53 bits of significand, the exponent between \<open>-1022\<close> and \<open>1023\<close>, gradual
  underflow below, infinity from \<open>2^1024 - 2^970\<close> on.
\<close>

datatype jsnum = NaN | PInf | NInf | Fin rat

definition pow2 :: "int \<Rightarrow> rat" where
  "pow2 e = 2 powi e"

definition binade :: "rat \<Rightarrow> int" where
  \<comment> \<open>the exponent \<open>e\<close> with \<open>2^e \<le> |x| < 2^(e+1)\<close>, for \<open>x \<noteq> 0\<close>\<close>
  "binade x = (let a = fst (quotient_of \<bar>x\<bar>); b = snd (quotient_of \<bar>x\<bar>);
                   d = bitlen a - bitlen b
               in if pow2 d \<le> \<bar>x\<bar> then d else d - 1)"

definition round_half_even :: "rat \<Rightarrow> int" where
  "round_half_even x = (let f = \<lfloor>x\<rfloor>; r = x - of_int f in
      if r < 1 / 2 then f else if 1 / 2 < r then f + 1 else if even f then f else f + 1)"

definition to_double :: "rat \<Rightarrow> jsnum" where
  "to_double x = (if x = 0 then Fin 0 else
     let e = max (binade x) (- 1022); q = pow2 (e - 52);
         r = of_int (round_half_even (x / q)) * q
     in if pow2 1024 \<le> \<bar>r\<bar> then (if 0 < x then PInf else NInf) else Fin r)"

definition isNaN :: "jsnum \<Rightarrow> bool" where
  "isNaN n = (n = NaN)"

fun fneg :: "jsnum \<Rightarrow> jsnum" where
  "fneg NaN = NaN"
| "fneg PInf = NInf"
| "fneg NInf = PInf"
| "fneg (Fin r) = Fin (- r)"

text \<open>\<^verbatim>\<open>a + b\<close> on numbers: the exact sum, rounded once.\<close>

fun fadd :: "jsnum \<Rightarrow> jsnum \<Rightarrow> jsnum" where
  "fadd (Fin a) (Fin b) = to_double (a + b)"
| "fadd NaN b = NaN"
| "fadd a NaN = NaN"
| "fadd PInf NInf = NaN"
| "fadd NInf PInf = NaN"
| "fadd PInf b = PInf"
| "fadd NInf b = NInf"
| "fadd a PInf = PInf"
| "fadd a NInf = NInf"

definition fsub :: "jsnum \<Rightarrow> jsnum \<Rightarrow> jsnum" where
  "fsub a b = fadd a (fneg b)"

text \<open>\<^verbatim>\<open>a < b\<close> and \<^verbatim>\<open>a > b\<close>: false as soon as one side is \<^verbatim>\<open>NaN\<close>.\<close>

fun flt :: "jsnum \<Rightarrow> jsnum \<Rightarrow> bool" where
  "flt NaN b = False"
| "flt a NaN = False"
| "flt (Fin a) (Fin b) = (a < b)"
| "flt a NInf = False"
| "flt PInf b = False"
| "flt NInf b = True"
| "flt a PInf = True"

definition fgt :: "jsnum \<Rightarrow> jsnum \<Rightarrow> bool" where
  "fgt a b = flt b a"

fun Math_abs :: "jsnum \<Rightarrow> jsnum" where
  "Math_abs NaN = NaN"
| "Math_abs PInf = PInf"
| "Math_abs NInf = PInf"
| "Math_abs (Fin r) = Fin \<bar>r\<bar>"

text \<open>
  \<^verbatim>\<open>+(x.toFixed(2))\<close>. For a finite \<open>x\<close> below \<open>10^21\<close> in magnitude, \<^verbatim>\<open>toFixed(2)\<close> writes
  the integer \<open>n\<close> for which \<open>n / 100\<close> is nearest to \<open>|x|\<close> (the larger one of two), with two
  decimals and the sign of \<open>x\<close>, and the unary plus reads that decimal string back as the
  nearest double. From \<open>10^21\<close> on, and for the infinities and \<^verbatim>\<open>NaN\<close>, \<^verbatim>\<open>toFixed\<close> writes what
  \<^verbatim>\<open>String(x)\<close> writes, which reads back as \<open>x\<close>.
\<close>

definition toFixed2_digits :: "rat \<Rightarrow> int" where
  "toFixed2_digits r = \<lfloor>\<bar>r\<bar> * 100 + 1 / 2\<rfloor>"

fun toFixed2_number :: "jsnum \<Rightarrow> jsnum" where
  "toFixed2_number (Fin r) =
     (if 10 ^ 21 \<le> \<bar>r\<bar> then Fin r
      else to_double ((if r < 0 then - 1 else 1) * of_int (toFixed2_digits r) / 100))"
| "toFixed2_number n = n"

section \<open>JavaScript strings\<close>

text \<open>
  A string is a list of 8-bit characters: the code units 0 to 255. White space
  (\<^verbatim>\<open>trim\<close>, and the leading white space that \<^verbatim>\<open>parseFloat\<close> skips) is TAB, LF, VT, FF, CR,
  SP and NBSP there; lower-casing moves \<^verbatim>\<open>A-Z\<close> and the Latin-1 capitals.
\<close>

definition js_whitespace :: "char \<Rightarrow> bool" where
  "js_whitespace c = (of_char c \<in> {9, 10, 11, 12, 13, 32, 160 :: nat})"

definition trimStart :: "string \<Rightarrow> string" where
  "trimStart s = dropWhile js_whitespace s"

definition trimEnd :: "string \<Rightarrow> string" where
  "trimEnd s = rev (dropWhile js_whitespace (rev s))"

definition trim :: "string \<Rightarrow> string" where
  "trim s = trimEnd (trimStart s)"

definition lower_char :: "char \<Rightarrow> char" where
  "lower_char c = (let n = (of_char c :: nat) in
     if (65 \<le> n \<and> n \<le> 90) \<or> (192 \<le> n \<and> n \<le> 222 \<and> n \<noteq> 215)
     then char_of (n + 32) else c)"

definition toLowerCase :: "string \<Rightarrow> string" where
  "toLowerCase s = map lower_char s"

text \<open>
  \<^verbatim>\<open>toUpperCase\<close> moves \<^verbatim>\<open>a-z\<close> and the Latin-1 small letters, and writes \<^verbatim>\<open>SS\<close> for the
  sharp s. The capitals of the micro sign and of y with diaeresis are code units above 255;
  the two characters are left as they are.
\<close>

definition upper_char :: "char \<Rightarrow> string" where
  "upper_char c = (let n = (of_char c :: nat) in
     if (97 \<le> n \<and> n \<le> 122) \<or> (224 \<le> n \<and> n \<le> 254 \<and> n \<noteq> 247)
     then [char_of (n - 32)]
     else if n = 223 then ''SS'' else [c])"

definition toUpperCase :: "string \<Rightarrow> string" where
  "toUpperCase s = concat (map upper_char s)"

definition startsWith :: "string \<Rightarrow> string \<Rightarrow> bool" where
  "startsWith s p = (take (length p) s = p)"

section \<open>parseFloat\<close>

text \<open>
  \<^verbatim>\<open>parseFloat(s)\<close> skips leading white space and reads the longest prefix that is a
  decimal literal: an optional sign, then \<^verbatim>\<open>Infinity\<close>, or digits with an optional
  fraction, or a fraction alone, then an optional exponent (\<^verbatim>\<open>e\<close> or \<^verbatim>\<open>E\<close>, an optional sign
  and at least one digit). What follows the prefix is ignored. Without such a prefix the
  result is \<^verbatim>\<open>NaN\<close>. The value is the literal's exact value, rounded to a double.
\<close>

definition is_digit :: "char \<Rightarrow> bool" where
  "is_digit c = (48 \<le> (of_char c :: nat) \<and> (of_char c :: nat) \<le> 57)"

definition digit_val :: "char \<Rightarrow> nat" where
  "digit_val c = of_char c - 48"

definition dec_val :: "string \<Rightarrow> nat" where
  "dec_val ds = foldl (\<lambda>n c. 10 * n + digit_val c) 0 ds"

definition pow10 :: "int \<Rightarrow> rat" where
  "pow10 e = 10 powi e"

definition exponent_part :: "string \<Rightarrow> int \<times> string" where
  \<comment> \<open>the value of the exponent part that starts the string and what follows it;
      \<open>(0, s)\<close> when no exponent part starts \<open>s\<close>\<close>
  "exponent_part s = (case s of
       [] \<Rightarrow> (0, s)
     | c # t \<Rightarrow>
        if c = CHR ''e'' \<or> c = CHR ''E'' then
          (case t of
             [] \<Rightarrow> (0, s)
           | d # u \<Rightarrow>
              if d = CHR ''+'' then
                (if takeWhile is_digit u = [] then (0, s)
                 else (int (dec_val (takeWhile is_digit u)), dropWhile is_digit u))
              else if d = CHR ''-'' then
                (if takeWhile is_digit u = [] then (0, s)
                 else (- int (dec_val (takeWhile is_digit u)), dropWhile is_digit u))
              else
                (if takeWhile is_digit t = [] then (0, s)
                 else (int (dec_val (takeWhile is_digit t)), dropWhile is_digit t)))
        else (0, s))"

definition unsigned_literal :: "string \<Rightarrow> (rat \<times> string) option" where
  \<comment> \<open>the exact value of the longest unsigned finite literal that starts the string, and
      what follows it\<close>
  "unsigned_literal s =
     (let ds = takeWhile is_digit s; r = dropWhile is_digit s in
      case r of
        c # t \<Rightarrow>
          if c = CHR ''.'' then
            (let fs = takeWhile is_digit t; r' = dropWhile is_digit t in
             if ds = [] \<and> fs = [] then None
             else Some ((of_nat (dec_val ds) + of_nat (dec_val fs) / 10 ^ length fs)
                          * pow10 (fst (exponent_part r')),
                        snd (exponent_part r')))
          else if ds = [] then None
          else Some (of_nat (dec_val ds) * pow10 (fst (exponent_part r)), snd (exponent_part r))
      | [] \<Rightarrow> if ds = [] then None else Some (of_nat (dec_val ds), []))"

definition unsigned_number :: "string \<Rightarrow> (jsnum \<times> string) option" where
  "unsigned_number s =
     (if startsWith s ''Infinity'' then Some (PInf, drop 8 s)
      else case unsigned_literal s of
             None \<Rightarrow> None
           | Some v \<Rightarrow> Some (to_double (fst v), snd v))"

definition signed_number :: "string \<Rightarrow> (jsnum \<times> string) option" where
  "signed_number s = (case s of
       [] \<Rightarrow> None
     | c # t \<Rightarrow>
        if c = CHR ''-'' then
          (case unsigned_number t of None \<Rightarrow> None | Some v \<Rightarrow> Some (fneg (fst v), snd v))
        else if c = CHR ''+'' then unsigned_number t
        else unsigned_number s)"

definition parseFloat :: "string \<Rightarrow> jsnum" where
  "parseFloat s = (case signed_number (trimStart s) of None \<Rightarrow> NaN | Some v \<Rightarrow> fst v)"

section \<open>parseNumberSafe\<close>

text \<open>
  \<^verbatim>\<open>parseNumberSafe(val)\<close>, lines 116 to 129. Its callers pass what \<^verbatim>\<open>getVal\<close> returns: the
  string of a CSV cell, or \<^verbatim>\<open>undefined\<close>.
\<close>

datatype cell = Undefined | Null | Str string

definition remove_commas :: "string \<Rightarrow> string" where
  \<comment> \<open>\<^verbatim>\<open>.replace(/,/g, '')\<close>\<close>
  "remove_commas s = filter (\<lambda>c. c \<noteq> CHR '','') s"

definition line_terminator :: "char \<Rightarrow> bool" where
  "line_terminator c = ((of_char c :: nat) = 10 \<or> (of_char c :: nat) = 13)"

definition in_parentheses :: "string \<Rightarrow> bool" where
  \<comment> \<open>\<^verbatim>\<open>/^\(.*\)$/.test(s)\<close>: the dot matches every character but a line terminator\<close>
  "in_parentheses s = (case s of
       [] \<Rightarrow> False
     | c # t \<Rightarrow> c = CHR ''('' \<and> t \<noteq> [] \<and> last t = CHR '')''
                \<and> \<not> list_ex line_terminator (butlast t))"

definition strip_parentheses :: "string \<Rightarrow> string" where
  \<comment> \<open>\<^verbatim>\<open>.replace(/^\(|\)$/g, '')\<close>\<close>
  "strip_parentheses s =
     (let t = (case s of [] \<Rightarrow> [] | c # u \<Rightarrow> if c = CHR ''('' then u else s)
      in if t \<noteq> [] \<and> last t = CHR '')'' then butlast t else t)"

definition parseNumberSafe :: "cell \<Rightarrow> jsnum" where
  "parseNumberSafe val = (case val of
       Undefined \<Rightarrow> Fin 0
     | Null \<Rightarrow> Fin 0
     | Str s \<Rightarrow>
        (let cleaned = trim (remove_commas s) in
         if cleaned = [] then Fin 0
         else if in_parentheses cleaned then
           (let inner = strip_parentheses cleaned; n = parseFloat inner
            in if isNaN n then Fin 0 else fneg n)
         else
           (let n = parseFloat cleaned in if isNaN n then Fin 0 else n)))"

section \<open>The statement upload: rows, field lookup, running balance\<close>

text \<open>
  A CSV row is an object whose properties are the header names, with the cells (strings) as
  values. It is modelled by the list of its properties in the order \<^verbatim>\<open>Object.keys\<close> gives them.

  The route \<^verbatim>\<open>/api/upload-statement/:bank\<close> (lines 138 to 246) is modelled in two parts. The
  route itself (\<open>upload_statement\<close>, at the end of this section) answers 400 or throws: line
  154 builds the stream with \<^verbatim>\<open>csvParser()\<close>, the file binds the parser module to the name
  \<^verbatim>\<open>csv\<close> (line 10) and binds \<^verbatim>\<open>csvParser\<close> nowhere, so the call throws a \<^verbatim>\<open>ReferenceError\<close>
  before any row is read. The row handler of lines 155 to 236, which that stream would call
  once per row in file order, is modelled on its own (\<open>on_data\<close>, \<open>results\<close>): the rows it is
  called with are an input.
\<close>

type_synonym row = "(string \<times> string) list"

datatype exn = TypeError | ReferenceError | ERR_INVALID_CHAR

definition has_key :: "row \<Rightarrow> string \<Rightarrow> bool" where
  "has_key r k = (k \<in> set (map fst r))"

definition get_prop :: "row \<Rightarrow> string \<Rightarrow> cell" where
  \<comment> \<open>\<^verbatim>\<open>r[k]\<close> for a property name that \<^verbatim>\<open>Object.prototype\<close> does not have\<close>
  "get_prop r k = (case map_of r k of None \<Rightarrow> Undefined | Some v \<Rightarrow> Str v)"

definition set_prop :: "string \<Rightarrow> string \<Rightarrow> row \<Rightarrow> row" where
  \<comment> \<open>\<^verbatim>\<open>r[k] = v\<close> with a string \<open>v\<close>: a new key goes last, a known key keeps its place,
      and assigning a string to \<^verbatim>\<open>__proto__\<close> leaves the object as it is\<close>
  "set_prop k v r = (if k = ''__proto__'' then r else AList.update k v r)"

definition normalizedRow :: "row \<Rightarrow> row" where
  \<comment> \<open>lines 158 to 161\<close>
  "normalizedRow r = foldl (\<lambda>acc kv. set_prop (trim (fst kv)) (snd kv) acc) [] r"

text \<open>
  \<^verbatim>\<open>getVal\<close>, lines 167 to 175. \<^verbatim>\<open>normalizedRow.hasOwnProperty(c)\<close> reads the property
  \<^verbatim>\<open>hasOwnProperty\<close> of the row itself first: when a column has that name the property is
  a string, and calling it throws a \<^verbatim>\<open>TypeError\<close>. \<^verbatim>\<open>find\<close> walks the keys in order and its
  result is tested for truth, so an empty key does not count as found.
\<close>

fun getVal :: "row \<Rightarrow> string list \<Rightarrow> exn + cell" where
  "getVal nr [] = Inr Undefined"
| "getVal nr (c # cs) =
     (if has_key nr ''hasOwnProperty'' then Inl TypeError
      else if has_key nr c then Inr (get_prop nr c)
      else (case find (\<lambda>k. toLowerCase k = toLowerCase c) (map fst nr) of
              Some foundKey \<Rightarrow> if foundKey \<noteq> [] then Inr (get_prop nr foundKey) else getVal nr cs
            | None \<Rightarrow> getVal nr cs))"

definition debit_credit_columns :: "row \<Rightarrow> string list \<Rightarrow> string list \<Rightarrow> exn + jsnum \<times> jsnum" where
  \<comment> \<open>\<^verbatim>\<open>debit = parseNumberSafe(getVal(ds)); credit = parseNumberSafe(getVal(cs))\<close>\<close>
  "debit_credit_columns nr ds cs =
     (case getVal nr ds of
        Inl e \<Rightarrow> Inl e
      | Inr d \<Rightarrow> (case getVal nr cs of
                   Inl e \<Rightarrow> Inl e
                 | Inr c \<Rightarrow> Inr (parseNumberSafe d, parseNumberSafe c)))"

definition or_empty :: "cell \<Rightarrow> string" where
  \<comment> \<open>\<^verbatim>\<open>(v || '').toString()\<close>\<close>
  "or_empty v = (case v of Str s \<Rightarrow> s | _ \<Rightarrow> [])"

definition bandhan_columns :: "row \<Rightarrow> exn + jsnum \<times> jsnum" where
  \<comment> \<open>lines 184 to 197; \<^verbatim>\<open>debit\<close> and \<^verbatim>\<open>credit\<close> start at 0 (lines 164, 165)\<close>
  "bandhan_columns nr =
     (case getVal nr [''amount'', ''Amount''] of
        Inl e \<Rightarrow> Inl e
      | Inr a \<Rightarrow>
         (case getVal nr [''dr_cr'', ''dr/cr'', ''dr cr'', ''cr_dr'', ''type''] of
            Inl e \<Rightarrow> Inl e
          | Inr i \<Rightarrow>
             (let amt = parseNumberSafe a; drcr = toUpperCase (trim (or_empty i)) in
              if startsWith drcr ''D'' then Inr (amt, Fin 0)
              else if startsWith drcr ''C'' then Inr (Fin 0, amt)
              else if flt amt (Fin 0) then Inr (Math_abs amt, Fin 0)
              else Inr (Fin 0, amt))))"

definition extract_amounts :: "string \<Rightarrow> row \<Rightarrow> exn + jsnum \<times> jsnum" where
  \<comment> \<open>the \<^verbatim>\<open>switch (bank)\<close> of lines 178 to 218: the pair \<open>(debit, credit)\<close>\<close>
  "extract_amounts bank nr =
     (if bank = ''PNB'' then
        debit_credit_columns nr [''withdrawal'', ''withdrawals'', ''debit'']
                                [''deposit'', ''deposits'', ''credit'']
      else if bank = ''BANDHAN'' then bandhan_columns nr
      else if bank \<in> set [''CENTRAL'', ''ICICI'', ''SBI'', ''IDFC'', ''AXIS''] then
        debit_credit_columns nr [''debit'', ''withdrawals'', ''withdrawal'']
                                [''credit'', ''deposit'', ''deposits'']
      else if bank = ''HDFC'' then
        debit_credit_columns nr [''withdrawal'', ''withdrawals'', ''debit'']
                                [''deposit'', ''deposits'', ''credit'']
      else
        debit_credit_columns nr [''debit'', ''withdrawal'', ''withdrawals'']
                                [''credit'', ''deposit'', ''deposits''])"

text \<open>
  An element of \<^verbatim>\<open>results\<close>, lines 224 to 229: a copy of the normalized row in which
  \<^verbatim>\<open>balance\<close>, \<^verbatim>\<open>_parsed_debit\<close> and \<^verbatim>\<open>_parsed_credit\<close> are set to numbers; a column of one of
  these names is overwritten. The record holds the three numbers, and under \<open>columns\<close> the
  properties that are still cells of the row: those under every other name, in order.
\<close>

definition copied_columns :: "row \<Rightarrow> row" where
  "copied_columns nr =
     filter (\<lambda>kv. fst kv \<notin> set [''balance'', ''_parsed_debit'', ''_parsed_credit'']) nr"

record outRow =
  columns :: row
  balance :: jsnum
  parsed_debit :: jsnum
  parsed_credit :: jsnum

text \<open>
  The \<^verbatim>\<open>'data'\<close> handler on the state \<open>(results, runningBalance)\<close>. Its body is one
  \<^verbatim>\<open>try\<close>; the \<^verbatim>\<open>catch\<close> logs the error and leaves both variables as they were.
\<close>

definition on_data :: "string \<Rightarrow> outRow list \<times> jsnum \<Rightarrow> row \<Rightarrow> outRow list \<times> jsnum" where
  "on_data bank st r =
     (let nr = normalizedRow r in
      case extract_amounts bank nr of
        Inl errRow \<Rightarrow> st
      | Inr dc \<Rightarrow>
         (let runningBalance = toFixed2_number (fsub (fadd (snd st) (snd dc)) (fst dc))
          in (fst st @ [\<lparr>columns = copied_columns nr, balance = runningBalance,
                         parsed_debit = fst dc, parsed_credit = snd dc\<rparr>],
              runningBalance)))"

definition results :: "string \<Rightarrow> row list \<Rightarrow> outRow list" where
  \<comment> \<open>the array \<^verbatim>\<open>results\<close> once the handler has been called with the rows, in order; the
      state starts at \<open>([], 0)\<close> (lines 149 and 150)\<close>
  "results bank rows = fst (foldl (on_data bank) ([], Fin 0) rows)"

text \<open>
  The route, lines 138 to 154. \<^verbatim>\<open>csvTemplates[bank]\<close> is truthy for the eight banks and for the
  names of the members that the table inherits from \<^verbatim>\<open>Object.prototype\<close>. \<open>file\<close> says whether
  the request carries a file. No path of the route reaches \<^verbatim>\<open>res.json\<close> with data.
\<close>

definition inherited_names :: "string list" where
  "inherited_names = [''constructor'', ''__defineGetter__'', ''__defineSetter__'',
     ''hasOwnProperty'', ''__lookupGetter__'', ''__lookupSetter__'', ''isPrototypeOf'',
     ''propertyIsEnumerable'', ''toString'', ''valueOf'', ''__proto__'', ''toLocaleString'']"

definition csvTemplates_names :: "string list" where
  \<comment> \<open>lines 87 to 96\<close>
  "csvTemplates_names =
     [''PNB'', ''BANDHAN'', ''CENTRAL'', ''ICICI'', ''SBI'', ''AXIS'', ''HDFC'', ''IDFC'']"

definition csvTemplates_truthy :: "string \<Rightarrow> bool" where
  "csvTemplates_truthy bank = (bank \<in> set csvTemplates_names \<or> bank \<in> set inherited_names)"

datatype upload_response = Status400 string

definition upload_statement :: "bool \<Rightarrow> string \<Rightarrow> exn + upload_response" where
  "upload_statement file bank =
     (if \<not> file then Inr (Status400 ''No file uploaded'')
      else if \<not> csvTemplates_truthy bank then Inr (Status400 ''Unsupported bank'')
      else Inl ReferenceError)"

section \<open>The CSV import\<close>

text \<open>
  \<^verbatim>\<open>/api/import-csv\<close>, lines 354 to 376, reads the properties of the rows as the parser
  gives them and inserts one record per row into \<^verbatim>\<open>entries\<close>.
\<close>

definition truthy :: "cell \<Rightarrow> bool" where
  "truthy v = (case v of Str s \<Rightarrow> s \<noteq> [] | _ \<Rightarrow> False)"

definition cell_or :: "cell \<Rightarrow> cell \<Rightarrow> cell" where
  \<comment> \<open>\<^verbatim>\<open>a || b\<close>\<close>
  "cell_or a b = (if truthy a then a else b)"

definition amount_of :: "cell \<Rightarrow> jsnum" where
  \<comment> \<open>\<^verbatim>\<open>v ? parseFloat(v) : 0\<close>\<close>
  "amount_of v = (case v of Str s \<Rightarrow> if s \<noteq> [] then parseFloat s else Fin 0 | _ \<Rightarrow> Fin 0)"

definition or_null :: "jsnum \<Rightarrow> jsnum option" where
  \<comment> \<open>\<^verbatim>\<open>n || null\<close>: zero and \<^verbatim>\<open>NaN\<close> are false\<close>
  "or_null n = (if n = Fin 0 \<or> n = NaN then None else Some n)"

record entry =
  e_date :: cell
  e_value_date :: cell
  e_description :: cell
  e_debit :: "jsnum option"
  e_credit :: "jsnum option"
  e_balance :: jsnum
  e_cheque_no :: cell
  e_narration :: cell

definition import_row :: "entry list \<times> jsnum \<Rightarrow> row \<Rightarrow> entry list \<times> jsnum" where
  \<comment> \<open>the body of \<^verbatim>\<open>results.forEach\<close> on the state \<open>(inserted records, lastBalance)\<close>\<close>
  "import_row st r =
     (let debit = amount_of (get_prop r ''debit'');
          credit = amount_of (get_prop r ''credit'');
          newBalance = fadd (fsub (snd st) debit) credit
      in (fst st @ [\<lparr>e_date = cell_or (get_prop r ''date'') (Str []),
                     e_value_date = cell_or (get_prop r ''value_date'') (cell_or (get_prop r ''date'') Null),
                     e_description = cell_or (get_prop r ''description'')
                                       (cell_or (get_prop r ''narration'') (Str [])),
                     e_debit = or_null debit,
                     e_credit = or_null credit,
                     e_balance = newBalance,
                     e_cheque_no = cell_or (get_prop r ''cheque_no'') Null,
                     e_narration = cell_or (get_prop r ''narration'') Null\<rparr>],
          newBalance))"

definition import_csv :: "row list \<Rightarrow> entry list" where
  "import_csv rows = fst (foldl import_row ([], Fin 0) rows)"

section \<open>JSON values\<close>

text \<open>
  The body of \<^verbatim>\<open>/api/generate-pdf\<close> is JSON: the account and each transaction are objects
  whose properties are read by name. Arrays are not modelled. A property that an object
  does not have reads as \<^verbatim>\<open>undefined\<close>.
\<close>

datatype jsval = JUndefined | JNull | JBool bool | JNum jsnum | JStr string
  | JObj "(string \<times> jsval) list"

type_synonym obj = "(string \<times> jsval) list"

definition fld :: "obj \<Rightarrow> string \<Rightarrow> jsval" where
  "fld e k = (case map_of e k of None \<Rightarrow> JUndefined | Some v \<Rightarrow> v)"

definition js_truthy :: "jsval \<Rightarrow> bool" where
  "js_truthy v = (case v of
       JUndefined \<Rightarrow> False
     | JNull \<Rightarrow> False
     | JBool b \<Rightarrow> b
     | JNum n \<Rightarrow> n \<noteq> Fin 0 \<and> n \<noteq> NaN
     | JStr s \<Rightarrow> s \<noteq> []
     | JObj kvs \<Rightarrow> True)"

definition js_or :: "jsval \<Rightarrow> jsval \<Rightarrow> jsval" where
  "js_or a b = (if js_truthy a then a else b)"

text \<open>
  \<^verbatim>\<open>Number(v)\<close>. A string is trimmed; the empty string is 0; otherwise the whole string has
  to be a decimal literal, or \<^verbatim>\<open>0x\<close>, \<^verbatim>\<open>0o\<close> or \<^verbatim>\<open>0b\<close> followed by digits of that radix.
\<close>

definition radix_digit :: "nat \<Rightarrow> char \<Rightarrow> nat option" where
  "radix_digit b c = (let n = (of_char c :: nat);
       v = (if 48 \<le> n \<and> n \<le> 57 then Some (n - 48)
            else if 97 \<le> n \<and> n \<le> 102 then Some (n - 87)
            else if 65 \<le> n \<and> n \<le> 70 then Some (n - 55)
            else None)
     in case v of None \<Rightarrow> None | Some d \<Rightarrow> if d < b then Some d else None)"

fun radix_val :: "nat \<Rightarrow> nat \<Rightarrow> string \<Rightarrow> nat option" where
  "radix_val b acc [] = Some acc"
| "radix_val b acc (c # cs) =
     (case radix_digit b c of None \<Rightarrow> None | Some d \<Rightarrow> radix_val b (b * acc + d) cs)"

definition non_decimal :: "string \<Rightarrow> nat option" where
  "non_decimal t = (case t of
       z # x # ds \<Rightarrow>
         if z = CHR ''0'' \<and> ds \<noteq> [] then
           (if x = CHR ''x'' \<or> x = CHR ''X'' then radix_val 16 0 ds
            else if x = CHR ''o'' \<or> x = CHR ''O'' then radix_val 8 0 ds
            else if x = CHR ''b'' \<or> x = CHR ''B'' then radix_val 2 0 ds
            else None)
         else None
     | _ \<Rightarrow> None)"

definition StringToNumber :: "string \<Rightarrow> jsnum" where
  "StringToNumber s =
     (let t = trim s in
      if t = [] then Fin 0
      else case non_decimal t of
             Some n \<Rightarrow> to_double (of_nat n)
           | None \<Rightarrow> (case signed_number t of
                        Some v \<Rightarrow> if snd v = [] then fst v else NaN
                      | None \<Rightarrow> NaN))"

definition Number :: "jsval \<Rightarrow> jsnum" where
  "Number v = (case v of
       JUndefined \<Rightarrow> NaN
     | JNull \<Rightarrow> Fin 0
     | JBool b \<Rightarrow> if b then Fin 1 else Fin 0
     | JNum n \<Rightarrow> n
     | JStr s \<Rightarrow> StringToNumber s
     | JObj kvs \<Rightarrow> NaN)"

text \<open>\<^verbatim>\<open>a <= b\<close> and \<^verbatim>\<open>Math.max(a, b)\<close>.\<close>

fun fle :: "jsnum \<Rightarrow> jsnum \<Rightarrow> bool" where
  "fle NaN b = False"
| "fle a NaN = False"
| "fle (Fin a) (Fin b) = (a \<le> b)"
| "fle NInf b = True"
| "fle a PInf = True"
| "fle a NInf = False"
| "fle PInf b = False"

fun Math_max :: "jsnum \<Rightarrow> jsnum \<Rightarrow> jsnum" where
  "Math_max NaN b = NaN"
| "Math_max a NaN = NaN"
| "Math_max a b = (if flt a b then b else a)"

section \<open>The PDF endpoint\<close>

text \<open>
  \<^verbatim>\<open>/api/generate-pdf\<close>, lines 2601 to 2622. \<^verbatim>\<open>bankTemplates[bank]\<close> finds the eight
  templates, and also what the table inherits from \<^verbatim>\<open>Object.prototype\<close>: under one of those
  names the handler calls the inherited member in place of a template, and the model says
  no more than that. The identifier is the string that \<^verbatim>\<open>bank\<close> converts to, which is both
  the property key and the text that line 2605 puts into the \<^verbatim>\<open>Content-disposition\<close> header;
  \<open>None\<close> is a body without \<^verbatim>\<open>bank\<close>. \<^verbatim>\<open>res.setHeader\<close> throws \<^verbatim>\<open>ERR_INVALID_CHAR\<close> when the
  value holds a character other than TAB, the code units 32 to 126 and those from 128 to
  255; this happens before anything is drawn, and no document is sent. (A code unit above
  255, which a string of this model cannot hold, makes it throw as well.) The handler sets
  no status, so every response that it sends has the status 200. The calls on the document
  are recorded in order; \<open>TemplateCall\<close> stands for all the calls one template makes.
\<close>

definition bank_names :: "string list" where
  "bank_names = [''PNB'', ''BANDHAN'', ''CENTRAL'', ''ICICI'', ''SBI'', ''AXIS'', ''HDFC'', ''IDFC'']"

datatype pdf_call =
    FontSize nat
  | TextCenter string
  | TextLine string jsval
  | MoveDown
  | TemplateCall string jsval jsval

record response =
  status :: nat
  calls :: "pdf_call list"

datatype result = Sent response | InheritedMember string | Throws exn

definition header_char :: "char \<Rightarrow> bool" where
  \<comment> \<open>a character that a header value may hold\<close>
  "header_char c = (let n = (of_char c :: nat) in n = 9 \<or> (32 \<le> n \<and> n \<le> 126) \<or> 128 \<le> n)"

definition member :: "jsval \<Rightarrow> string \<Rightarrow> jsval" where
  \<comment> \<open>\<^verbatim>\<open>v.k\<close> for a name \<open>k\<close> that no prototype has: a property of an object, \<^verbatim>\<open>undefined\<close>
      on a string, a number or a boolean\<close>
  "member v k = (case v of JObj kvs \<Rightarrow> fld kvs k | _ \<Rightarrow> JUndefined)"

definition generate_pdf :: "string option \<Rightarrow> jsval \<Rightarrow> jsval \<Rightarrow> result" where
  "generate_pdf bank0 account0 transactions0 =
     (let bank = (case bank0 of None \<Rightarrow> ''PNB'' | Some b \<Rightarrow> b);
          account = (if account0 = JUndefined then JObj [] else account0);
          transactions = (if transactions0 = JUndefined then JObj [] else transactions0)
      in if \<not> list_all header_char bank then Throws ERR_INVALID_CHAR
         else if bank \<in> set bank_names then
           Sent \<lparr>status = 200, calls = [TemplateCall bank account transactions]\<rparr>
         else if bank \<in> set inherited_names then InheritedMember bank
         else
           Sent \<lparr>status = 200,
                 calls = [FontSize 14, TextCenter ''Bank Statement (Sample)'', MoveDown]
                   @ (if js_truthy account then
                        [FontSize 10,
                         TextLine ''Name: '' (js_or (member account ''name'') (JStr [])),
                         TextLine ''Account No.: '' (js_or (member account ''account_no'') (JStr [])),
                         MoveDown]
                      else [])\<rparr>)"

section \<open>The table rows of the templates\<close>

text \<open>
  Each template draws its rows in one \<^verbatim>\<open>entries.forEach\<close>. The loop keeps the vertical
  position \<^verbatim>\<open>tableY\<close> (\<^verbatim>\<open>yPos\<close> in ICICI and SBI). For each entry it computes \<^verbatim>\<open>rowHeight\<close> from
  what \<^verbatim>\<open>doc.heightOfString\<close> returns, starts a new page when
  \<^verbatim>\<open>tableY + rowHeight\<close> is above the limit, draws the row at \<^verbatim>\<open>tableY\<close> and adds \<^verbatim>\<open>rowHeight\<close> to
  \<^verbatim>\<open>tableY\<close>.

  \<^verbatim>\<open>heightOfString\<close> belongs to PDFKit: the heights it returns, one per entry (one per cell
  in ICICI and SBI), are inputs, and so are the page height \<open>H\<close> and the position \<open>y0\<close> under
  the first header. \<open>Row y h\<close> stands for the drawing of one row: \<^verbatim>\<open>rect(left, y, width, h)\<close>,
  the column lines from \<open>y\<close> to \<open>y + h\<close> and the cell texts. The other constructors stand
  for what a template draws around a page break.
\<close>

datatype draw =
    AddPage
  | BottomBar
  | Logo
  | Watermark
  | ContinuationTitle
  | TableHeader jsnum
  | Row jsnum jsnum

fun table_rows ::
  "jsnum \<Rightarrow> draw list \<Rightarrow> draw list \<Rightarrow> jsnum \<Rightarrow> jsnum \<Rightarrow> jsnum list \<Rightarrow> draw list \<times> jsnum" where
  "table_rows limit pre post contY tableY [] = ([], tableY)"
| "table_rows limit pre post contY tableY (rowHeight # rest) =
     (if fgt (fadd tableY rowHeight) limit then
        (let r = table_rows limit pre post contY (fadd contY rowHeight) rest
         in (pre @ [AddPage] @ post @ [Row contY rowHeight] @ fst r, snd r))
      else
        (let r = table_rows limit pre post contY (fadd tableY rowHeight) rest
         in (Row tableY rowHeight # fst r, snd r)))"

definition PNB_rowHeight :: "jsnum \<Rightarrow> jsnum" where
  \<comment> \<open>line 595\<close>
  "PNB_rowHeight narrationHeight = Math_max (fadd narrationHeight (Fin 8)) (Fin 22)"

definition PNB_rows :: "jsnum \<Rightarrow> jsnum \<Rightarrow> jsnum list \<Rightarrow> draw list \<times> jsnum" where
  \<comment> \<open>lines 588 to 648; \<^verbatim>\<open>newY = 40\<close>, \<^verbatim>\<open>tableY = newY + 40\<close>\<close>
  "PNB_rows H y0 hs =
     table_rows (fsub H (Fin 80)) [] [ContinuationTitle] (fadd (Fin 40) (Fin 40)) y0
       (map PNB_rowHeight hs)"

definition BANDHAN_rowHeight :: "jsnum \<Rightarrow> jsnum" where
  \<comment> \<open>line 919\<close>
  "BANDHAN_rowHeight descHeight = Math_max (fadd descHeight (Fin 10)) (Fin 28)"

definition BANDHAN_rows :: "jsnum \<Rightarrow> jsnum \<Rightarrow> jsnum list \<Rightarrow> draw list \<times> jsnum" where
  \<comment> \<open>lines 912 to 980; \<^verbatim>\<open>drawTableHeader(100)\<close>, \<^verbatim>\<open>headerBottom = startY + 24\<close>\<close>
  "BANDHAN_rows H y0 hs =
     table_rows (fsub H (Fin 120)) [BottomBar] [Logo, TableHeader (Fin 100)]
       (fadd (Fin 100) (Fin 24)) y0 (map BANDHAN_rowHeight hs)"

definition CENTRAL_rowHeight :: "jsnum \<Rightarrow> jsnum" where
  \<comment> \<open>line 1219\<close>
  "CENTRAL_rowHeight descHeight = Math_max (fadd descHeight (Fin 10)) (Fin 24)"

definition CENTRAL_rows :: "jsnum \<Rightarrow> jsnum \<Rightarrow> jsnum list \<Rightarrow> draw list \<times> jsnum" where
  \<comment> \<open>lines 1212 to 1264; \<^verbatim>\<open>drawTableHeader(100)\<close>, \<^verbatim>\<open>headerBottom = startY + 30\<close>\<close>
  "CENTRAL_rows H y0 hs =
     table_rows (fsub H (Fin 80)) [] [Logo, TableHeader (Fin 100)]
       (fadd (Fin 100) (Fin 30)) y0 (map CENTRAL_rowHeight hs)"

definition ICICI_rowHeight :: "jsnum list \<Rightarrow> jsnum" where
  \<comment> \<open>lines 1476 to 1483: the heights of the seven cells of the row\<close>
  "ICICI_rowHeight cellHeights =
     foldl (\<lambda>rowHeight h. Math_max rowHeight (fadd h (Fin 6))) (Fin 0) cellHeights"

definition ICICI_rows :: "jsnum \<Rightarrow> jsnum \<Rightarrow> jsnum \<Rightarrow> jsnum list list \<Rightarrow> draw list \<times> jsnum" where
  \<comment> \<open>lines 1462 to 1513; \<open>mb\<close> is \<^verbatim>\<open>doc.page.margins.bottom\<close>; \<^verbatim>\<open>drawTableHeader(40)\<close>,
      \<^verbatim>\<open>headerBottom = yPos + 20\<close>\<close>
  "ICICI_rows H mb y0 hss =
     table_rows (fsub (fsub H mb) (Fin 60)) [] [TableHeader (Fin 40)]
       (fadd (Fin 40) (Fin 20)) y0 (map ICICI_rowHeight hss)"

definition SBI_rowHeight :: "jsnum list \<Rightarrow> jsnum" where
  \<comment> \<open>lines 1746 to 1756\<close>
  "SBI_rowHeight cellHeights =
     Math_max (foldl (\<lambda>rowHeight h. Math_max rowHeight (fadd h (Fin 10))) (Fin 0) cellHeights)
       (Fin 28)"

definition SBI_rows :: "jsnum \<Rightarrow> jsnum \<Rightarrow> jsnum list list \<Rightarrow> draw list \<times> jsnum" where
  \<comment> \<open>lines 1733 to 1797; \<^verbatim>\<open>drawTableHeader(50)\<close>, \<^verbatim>\<open>headerBottom = yPos + 30\<close>\<close>
  "SBI_rows H y0 hss =
     table_rows (fsub H (Fin 80)) [] [TableHeader (Fin 50)]
       (fadd (Fin 50) (Fin 30)) y0 (map SBI_rowHeight hss)"

definition AXIS_rowHeight :: "jsnum \<Rightarrow> jsnum" where
  \<comment> \<open>line 1952\<close>
  "AXIS_rowHeight descHeight = Math_max (fadd descHeight (Fin 8)) (Fin 18)"

definition AXIS_rows :: "jsnum \<Rightarrow> jsnum \<Rightarrow> jsnum list \<Rightarrow> draw list \<times> jsnum" where
  \<comment> \<open>lines 1945 to 1999; \<^verbatim>\<open>drawTableHeader(60)\<close> returns \<^verbatim>\<open>startY + 24\<close>\<close>
  "AXIS_rows H y0 hs =
     table_rows (fsub H (Fin 100)) [] [Watermark, TableHeader (Fin 60)]
       (fadd (Fin 60) (Fin 24)) y0 (map AXIS_rowHeight hs)"

definition HDFC_rowHeight :: "jsnum \<Rightarrow> jsnum" where
  \<comment> \<open>line 2232\<close>
  "HDFC_rowHeight narrationHeight = Math_max (fadd narrationHeight (Fin 8)) (Fin 22)"

definition HDFC_rows :: "jsnum \<Rightarrow> jsnum \<Rightarrow> jsnum list \<Rightarrow> draw list \<times> jsnum" where
  \<comment> \<open>lines 2225 to 2287; \<^verbatim>\<open>drawTableHeader(80)\<close>, \<^verbatim>\<open>headerBottom = startY + 20\<close>\<close>
  "HDFC_rows H y0 hs =
     table_rows (fsub H (Fin 250)) [] [Watermark, Logo, TableHeader (Fin 80)]
       (fadd (Fin 80) (Fin 20)) y0 (map HDFC_rowHeight hs)"

definition IDFC_rowHeight :: "jsnum \<Rightarrow> jsnum" where
  \<comment> \<open>line 2526\<close>
  "IDFC_rowHeight particularHeight = Math_max (fadd particularHeight (Fin 8)) (Fin 22)"

definition IDFC_rows :: "jsnum \<Rightarrow> jsnum \<Rightarrow> jsnum list \<Rightarrow> draw list \<times> jsnum" where
  \<comment> \<open>lines 2519 to 2576; \<^verbatim>\<open>tableY = 40\<close>\<close>
  "IDFC_rows H y0 hs =
     table_rows (fsub H (Fin 80)) [] [Watermark] (Fin 40) y0 (map IDFC_rowHeight hs)"

text \<open>
  What is read off a stream of drawings: the heights of its rows in order, and the positions
  of the rows that are the first on a page started by \<open>AddPage\<close>.
\<close>

fun row_heights :: "draw list \<Rightarrow> jsnum list" where
  "row_heights [] = []"
| "row_heights (Row y h # ds) = h # row_heights ds"
| "row_heights (d # ds) = row_heights ds"

fun first_rows :: "bool \<Rightarrow> draw list \<Rightarrow> jsnum list" where
  "first_rows fresh [] = []"
| "first_rows fresh (AddPage # ds) = first_rows True ds"
| "first_rows fresh (Row y h # ds) = (if fresh then y # first_rows False ds else first_rows False ds)"
| "first_rows fresh (d # ds) = first_rows fresh ds"

definition exceeds :: "jsnum \<Rightarrow> draw \<Rightarrow> bool" where
  \<comment> \<open>the row reaches below the limit\<close>
  "exceeds limit d = (case d of Row y h \<Rightarrow> fgt (fadd y h) limit | _ \<Rightarrow> False)"

text \<open>
  The rows that are not the first on a page started by \<open>AddPage\<close>.
\<close>

fun later_rows :: "bool \<Rightarrow> draw list \<Rightarrow> draw list" where
  "later_rows fresh [] = []"
| "later_rows fresh (AddPage # ds) = later_rows True ds"
| "later_rows fresh (Row y h # ds) =
     (if fresh then later_rows False ds else Row y h # later_rows False ds)"
| "later_rows fresh (d # ds) = later_rows fresh ds"

text \<open>
  The page-break invariant of a stream of drawings, for a limit and a continuation offset:
  the first row of every continuation page is drawn at the offset; no other row reaches below
  the limit; and when every row, drawn at the offset, ends at the limit or above, no row
  at all reaches below the limit.
\<close>

definition page_break_invariant :: "jsnum \<Rightarrow> jsnum \<Rightarrow> jsnum list \<Rightarrow> draw list \<Rightarrow> bool" where
  "page_break_invariant limit contY rowHeights ds =
     (set (first_rows False ds) \<subseteq> {contY}
      \<and> (\<forall>d \<in> set (later_rows False ds). \<not> exceeds limit d)
      \<and> ((\<forall>h \<in> set rowHeights. \<not> fgt (fadd contY h) limit) \<longrightarrow>
           (\<forall>d \<in> set ds. \<not> exceeds limit d)))"

section \<open>The totals of the templates\<close>

text \<open>
  A text handed to \<^verbatim>\<open>doc.text\<close> is a value of the request, the \<^verbatim>\<open>toFixed(2)\<close> form of a
  number (its digits are not spelled out), or a count. The account and the entries are
  objects.
\<close>

datatype shown = Val jsval | Fixed2 jsnum | Count nat

record summary =
  totalCredits :: jsnum
  totalDebits :: jsnum
  openingBalance :: jsnum
  closingBalance :: jsnum

definition BANDHAN_entry :: "nat \<Rightarrow> summary \<Rightarrow> nat \<times> obj \<Rightarrow> summary" where
  \<comment> \<open>the body of the \<^verbatim>\<open>forEach\<close> of lines 1000 to 1013; \<open>n\<close> is \<^verbatim>\<open>entries.length\<close>\<close>
  "BANDHAN_entry n st ie =
     (let idx = fst ie; entry = snd ie;
          s1 = (if idx = 0 \<and> js_truthy (fld entry ''balance'')
                then st\<lparr>openingBalance := Number (fld entry ''balance'')\<rparr> else st);
          s2 = (if js_truthy (fld entry ''credit'') \<and> fgt (Number (fld entry ''credit'')) (Fin 0)
                then s1\<lparr>totalCredits := fadd (totalCredits s1) (Number (fld entry ''credit''))\<rparr>
                else s1);
          s3 = (if js_truthy (fld entry ''debit'') \<and> fgt (Number (fld entry ''debit'')) (Fin 0)
                then s2\<lparr>totalDebits := fadd (totalDebits s2) (Number (fld entry ''debit''))\<rparr>
                else s2)
      in if idx + 1 = n \<and> js_truthy (fld entry ''balance'')
         then s3\<lparr>closingBalance := Number (fld entry ''balance'')\<rparr> else s3)"

definition BANDHAN_summary :: "obj list \<Rightarrow> summary" where
  \<comment> \<open>lines 995 to 1013\<close>
  "BANDHAN_summary entries =
     foldl (BANDHAN_entry (length entries))
       \<lparr>totalCredits = Fin 0, totalDebits = Fin 0, openingBalance = Fin 0, closingBalance = Fin 0\<rparr>
       (enumerate 0 entries)"

definition BANDHAN_summaryValues :: "obj list \<Rightarrow> shown list" where
  \<comment> \<open>lines 1020 to 1025: opening balance, total credits, total debits, closing balance\<close>
  "BANDHAN_summaryValues entries =
     (let t = BANDHAN_summary entries
      in [Fixed2 (openingBalance t), Fixed2 (totalCredits t), Fixed2 (totalDebits t),
          Fixed2 (closingBalance t)])"





















section \<open>The spec's reading of a decimal string\<close>

text \<open>
  A decimal number written out: an optional minus sign, digits, and optionally a point
  followed by digits; nothing before and nothing after.
\<close>

definition unsigned_decimal :: "string \<Rightarrow> rat option" where
  "unsigned_decimal s =
     (let ds = takeWhile is_digit s; r = dropWhile is_digit s in
      if ds = [] then None
      else case r of
             [] \<Rightarrow> Some (of_nat (dec_val ds))
           | c # fs \<Rightarrow>
               if c = CHR ''.'' \<and> fs \<noteq> [] \<and> list_all is_digit fs
               then Some (of_nat (dec_val ds) + of_nat (dec_val fs) / 10 ^ length fs)
               else None)"

definition decimal_number :: "string \<Rightarrow> rat option" where
  "decimal_number s = (case s of
       [] \<Rightarrow> None
     | c # t \<Rightarrow> if c = CHR ''-'' then map_option uminus (unsigned_decimal t)
                else unsigned_decimal s)"

text \<open>
  A character at which the scan of a numeric literal ends: not a digit, not a point and not
  the letter that starts an exponent. The empty string stops the scan as well.
\<close>

definition stops :: "string \<Rightarrow> bool" where
  "stops w = (case w of [] \<Rightarrow> True
     | c # u \<Rightarrow> \<not> is_digit c \<and> c \<noteq> CHR ''.'' \<and> c \<noteq> CHR ''e'' \<and> c \<noteq> CHR ''E'')"

section \<open>Numeric literals\<close>

text \<open>
  The literals that \<^verbatim>\<open>parseFloat\<close> reads, as the language specification words them
  (\<^verbatim>\<open>StrDecimalLiteral\<close>): an optional sign, then the word \<^verbatim>\<open>Infinity\<close>, or digits with an
  optional point and optional digits after it, or a point with digits, each with an optional
  exponent part made of \<^verbatim>\<open>e\<close> or \<^verbatim>\<open>E\<close>, an optional sign and digits. The recognizer below
  takes a whole string; it is written apart from the scanner of \<open>parseFloat\<close> above, to be
  compared with it. The value of a literal is its exact value rounded to a double.
\<close>

definition digits :: "string \<Rightarrow> bool" where
  "digits ds = (ds \<noteq> [] \<and> list_all is_digit ds)"

definition exponent_letter :: "char \<Rightarrow> bool" where
  "exponent_letter c = (c = CHR ''e'' \<or> c = CHR ''E'')"

definition is_exponent :: "string \<Rightarrow> bool" where
  "is_exponent x = (case x of
       [] \<Rightarrow> False
     | c # r \<Rightarrow> exponent_letter c \<and>
         (case r of
            [] \<Rightarrow> False
          | s # ds \<Rightarrow> if s = CHR ''+'' \<or> s = CHR ''-'' then digits ds else digits r))"

definition exponent_value :: "string \<Rightarrow> int" where
  "exponent_value x = (case x of
       [] \<Rightarrow> 0
     | c # r \<Rightarrow>
         (case r of
            [] \<Rightarrow> 0
          | s # ds \<Rightarrow> if s = CHR ''-'' then - int (dec_val ds)
                      else if s = CHR ''+'' then int (dec_val ds)
                      else int (dec_val r)))"

definition is_mantissa :: "string \<Rightarrow> bool" where
  "is_mantissa m = (case dropWhile is_digit m of
       [] \<Rightarrow> m \<noteq> []
     | c # f \<Rightarrow> c = CHR ''.'' \<and> list_all is_digit f \<and> (takeWhile is_digit m \<noteq> [] \<or> f \<noteq> []))"

definition mantissa_value :: "string \<Rightarrow> rat" where
  "mantissa_value m =
     (let i = takeWhile is_digit m; f = drop 1 (dropWhile is_digit m)
      in of_nat (dec_val i) + of_nat (dec_val f) / 10 ^ length f)"

definition is_unsigned_literal :: "string \<Rightarrow> bool" where
  "is_unsigned_literal u =
     (u = ''Infinity''
      \<or> (let m = takeWhile (\<lambda>c. \<not> exponent_letter c) u;
              x = dropWhile (\<lambda>c. \<not> exponent_letter c) u
          in is_mantissa m \<and> (x = [] \<or> is_exponent x)))"

definition unsigned_value :: "string \<Rightarrow> jsnum" where
  "unsigned_value u =
     (if u = ''Infinity'' then PInf
      else to_double (mantissa_value (takeWhile (\<lambda>c. \<not> exponent_letter c) u)
                      * pow10 (exponent_value (dropWhile (\<lambda>c. \<not> exponent_letter c) u))))"

definition is_literal :: "string \<Rightarrow> bool" where
  "is_literal s = (case s of
       [] \<Rightarrow> False
     | c # u \<Rightarrow> if c = CHR ''+'' \<or> c = CHR ''-'' then is_unsigned_literal u
                else is_unsigned_literal s)"

definition literal_value :: "string \<Rightarrow> jsnum" where
  "literal_value s = (case s of
       [] \<Rightarrow> NaN
     | c # u \<Rightarrow> if c = CHR ''-'' then fneg (unsigned_value u)
                else if c = CHR ''+'' then unsigned_value u
                else unsigned_value s)"

text \<open>
  \<open>longest_literal p w\<close>: of the string \<open>p @ w\<close>, the part \<open>p\<close> is a literal and no longer
  leading part is one. \<open>no_literal u\<close>: no leading part of \<open>u\<close> is a literal.
\<close>

definition longest_literal :: "string \<Rightarrow> string \<Rightarrow> bool" where
  "longest_literal p w =
     (is_literal p \<and> (\<forall>k \<in> {1..length w}. \<not> is_literal (p @ take k w)))"

definition no_literal :: "string \<Rightarrow> bool" where
  "no_literal u = (\<forall>k \<in> {0..length u}. \<not> is_literal (take k u))"

section \<open>The spec's ledger\<close>

text \<open>
  \<open>computeLedger\<close> as the spec words it: from the opening balance, each balance is the
  previous one plus the credit minus the debit, rounded to two decimals at every step. An
  entry is the pair \<open>(debit, credit)\<close>.
\<close>

fun computeLedger :: "jsnum \<Rightarrow> (jsnum \<times> jsnum) list \<Rightarrow> jsnum list" where
  "computeLedger B [] = []"
| "computeLedger B (e # es) =
     (let b = toFixed2_number (fsub (fadd B (snd e)) (fst e)) in b # computeLedger b es)"

section \<open>Rounding to a double: the quantum\<close>

definition representable :: "jsnum \<Rightarrow> bool" where
  \<comment> \<open>a value that the format holds\<close>
  "representable n = (case n of Fin r \<Rightarrow> to_double r = Fin r | _ \<Rightarrow> True)"

definition quantum :: "rat \<Rightarrow> rat" where
  \<comment> \<open>the distance between neighbouring doubles around \<open>x\<close>\<close>
  "quantum x = pow2 (max (binade x) (- 1022) - 52)"

definition rounded :: "rat \<Rightarrow> rat" where
  "rounded x = of_int (round_half_even (x / quantum x)) * quantum x"

section \<open>Facts about rounding to a double\<close>

text \<open>
  Rounding commutes with negation, is monotone, and leaves a double as it is.
\<close>

lemma pow2_pos [simp]: "0 < pow2 e"
  by (simp add: pow2_def)

lemma pow2_nonneg [simp]: "0 \<le> pow2 e"
  by (simp add: pow2_def)

lemma pow2_not_le_zero [simp]: "\<not> pow2 e \<le> 0"
  by (simp add: pow2_def not_le)

lemma pow2_add: "pow2 (a + b) = pow2 a * pow2 b"
  by (simp add: pow2_def power_int_add)

lemma pow2_mono: "a \<le> b \<Longrightarrow> pow2 a \<le> pow2 b"
  by (simp add: pow2_def power_int_increasing)

lemma pow2_strict_mono: "a < b \<Longrightarrow> pow2 a < pow2 b"
  by (simp add: pow2_def power_int_strict_increasing)

lemma pow2_le_iff: "pow2 a \<le> pow2 b \<longleftrightarrow> a \<le> b"
  by (metis pow2_mono pow2_strict_mono not_le)

lemma pow2_less_iff: "pow2 a < pow2 b \<longleftrightarrow> a < b"
  by (metis pow2_mono pow2_strict_mono not_le)

lemma pow2_Suc: "pow2 (e + 1) = 2 * pow2 e"
  by (simp add: pow2_def power_int_add)

lemma bitlen_powi:
  assumes "0 < (n::int)"
  shows "2 powi (bitlen n - 1) \<le> (of_int n :: rat)" and "(of_int n :: rat) < 2 powi (bitlen n)"
proof -
  have b: "2 ^ nat (bitlen n - 1) \<le> n" "n < 2 ^ nat (bitlen n)"
    using bitlen_bounds[OF assms] by auto
  have k: "1 \<le> bitlen n"
    using assms by (auto simp: bitlen_alt_def)
  have "(of_int (2 ^ nat (bitlen n - 1)) :: rat) \<le> of_int n"
    using b(1) of_int_le_iff by blast
  then show "2 powi (bitlen n - 1) \<le> (of_int n :: rat)"
    using k by (simp add: power_int_def)
  have "(of_int n :: rat) < of_int (2 ^ nat (bitlen n))"
    using b(2) of_int_less_iff by blast
  then show "(of_int n :: rat) < 2 powi (bitlen n)"
    using k by (simp add: power_int_def)
qed

lemma quotient_of_abs:
  assumes "x \<noteq> 0"
  shows "0 < fst (quotient_of \<bar>x\<bar>)" and "0 < snd (quotient_of \<bar>x\<bar>)"
    and "\<bar>x\<bar> = of_int (fst (quotient_of \<bar>x\<bar>)) / of_int (snd (quotient_of \<bar>x\<bar>))"
proof -
  obtain a b where ab: "quotient_of \<bar>x\<bar> = (a, b)" by (cases "quotient_of \<bar>x\<bar>")
  have b: "0 < b" using ab quotient_of_denom_pos by blast
  have eq: "\<bar>x\<bar> = of_int a / of_int b" using ab quotient_of_div by blast
  have "0 < \<bar>x\<bar>" using assms by simp
  then have "0 < a" using eq b by (simp add: zero_less_divide_iff)
  then show "0 < fst (quotient_of \<bar>x\<bar>)" and "0 < snd (quotient_of \<bar>x\<bar>)"
    and "\<bar>x\<bar> = of_int (fst (quotient_of \<bar>x\<bar>)) / of_int (snd (quotient_of \<bar>x\<bar>))"
    using ab b eq by auto
qed

lemma binade_bounds:
  assumes "x \<noteq> 0"
  shows "pow2 (binade x) \<le> \<bar>x\<bar>" and "\<bar>x\<bar> < pow2 (binade x + 1)"
proof -
  define a where "a = fst (quotient_of \<bar>x\<bar>)"
  define b where "b = snd (quotient_of \<bar>x\<bar>)"
  define d where "d = bitlen a - bitlen b"
  have a: "0 < a" and b: "0 < b" and eq: "\<bar>x\<bar> = of_int a / of_int b"
    using quotient_of_abs[OF assms] by (simp_all add: a_def b_def)
  have bd: "binade x = (if pow2 d \<le> \<bar>x\<bar> then d else d - 1)"
    by (simp add: binade_def Let_def a_def b_def d_def)
  have ra: "(of_int a :: rat) < 2 powi (bitlen a)" "2 powi (bitlen a - 1) \<le> (of_int a :: rat)"
    using bitlen_powi[OF a] by auto
  have rb: "(of_int b :: rat) < 2 powi (bitlen b)" "2 powi (bitlen b - 1) \<le> (of_int b :: rat)"
    using bitlen_powi[OF b] by auto
  have bpos: "(0::rat) < of_int b" using b by simp
  have ka: "pow2 (bitlen a) = pow2 (d + 1) * pow2 (bitlen b - 1)"
    unfolding pow2_add[symmetric] by (simp add: d_def)
  have kb: "pow2 (bitlen a - 1) = pow2 (d - 1) * pow2 (bitlen b)"
    unfolding pow2_add[symmetric] by (simp add: d_def)
  have up: "\<bar>x\<bar> < pow2 (d + 1)"
  proof -
    have "of_int a < pow2 (d + 1) * pow2 (bitlen b - 1)"
      using ra(1) ka by (simp add: pow2_def)
    also have "\<dots> \<le> pow2 (d + 1) * of_int b"
      using rb(2) by (simp add: pow2_def)
    finally have "of_int a / of_int b < pow2 (d + 1)"
      using bpos by (simp add: pos_divide_less_eq)
    then show ?thesis by (simp add: eq)
  qed
  have lo: "pow2 (d - 1) \<le> \<bar>x\<bar>"
  proof -
    have "pow2 (d - 1) * of_int b \<le> pow2 (d - 1) * pow2 (bitlen b)"
      using rb(1) by (simp add: pow2_def)
    also have "\<dots> \<le> of_int a"
      using ra(2) kb by (simp add: pow2_def)
    finally have "pow2 (d - 1) \<le> of_int a / of_int b"
      using bpos by (simp add: pos_le_divide_eq)
    then show ?thesis by (simp add: eq)
  qed
  show "pow2 (binade x) \<le> \<bar>x\<bar>" using bd lo by auto
  show "\<bar>x\<bar> < pow2 (binade x + 1)" using bd up by (auto simp: not_le)
qed

lemma binade_unique:
  assumes "pow2 e \<le> \<bar>x\<bar>" and "\<bar>x\<bar> < pow2 (e + 1)"
  shows "binade x = e"
proof -
  have "0 < \<bar>x\<bar>" using less_le_trans[OF pow2_pos assms(1)] .
  then have nz: "x \<noteq> 0" by simp
  have "pow2 (binade x) < pow2 (e + 1)"
    using binade_bounds(1)[OF nz] assms(2) by simp
  moreover have "pow2 e < pow2 (binade x + 1)"
    using binade_bounds(2)[OF nz] assms(1) by simp
  ultimately show ?thesis by (simp add: pow2_less_iff)
qed


lemma binade_minus [simp]: "binade (- x) = binade x"
  by (simp add: binade_def)

lemma binade_mono:
  assumes "x \<noteq> 0" and "\<bar>x\<bar> \<le> \<bar>y\<bar>"
  shows "binade x \<le> binade y"
proof -
  have ny: "y \<noteq> 0" using assms by auto
  have "pow2 (binade x) \<le> \<bar>x\<bar>" using binade_bounds(1)[OF assms(1)] .
  also have "\<dots> \<le> \<bar>y\<bar>" by fact
  also have "\<dots> < pow2 (binade y + 1)" using binade_bounds(2)[OF ny] .
  finally show ?thesis by (simp add: pow2_less_iff)
qed

lemma round_half_even_of_int [simp]: "round_half_even (of_int n) = n"
  by (simp add: round_half_even_def)

lemma round_half_even_cases:
  "(round_half_even x = \<lfloor>x\<rfloor> \<and> x - of_int \<lfloor>x\<rfloor> \<le> 1 / 2) \<or>
   (round_half_even x = \<lfloor>x\<rfloor> + 1 \<and> 1 / 2 \<le> x - of_int \<lfloor>x\<rfloor>)"
  by (auto simp: round_half_even_def Let_def)

lemma round_half_even_bounds:
  "x - 1 / 2 \<le> of_int (round_half_even x)" and "of_int (round_half_even x) \<le> x + 1 / 2"
proof -
  have f: "of_int \<lfloor>x\<rfloor> \<le> x" "x < of_int \<lfloor>x\<rfloor> + 1" by linarith+
  consider (lo) "round_half_even x = \<lfloor>x\<rfloor>" "x - of_int \<lfloor>x\<rfloor> \<le> 1 / 2"
    | (hi) "round_half_even x = \<lfloor>x\<rfloor> + 1" "1 / 2 \<le> x - of_int \<lfloor>x\<rfloor>"
    using round_half_even_cases[of x] by blast
  then have "x - 1 / 2 \<le> of_int (round_half_even x) \<and> of_int (round_half_even x) \<le> x + 1 / 2"
  proof cases
    case lo
    have "(of_int (round_half_even x) :: rat) = of_int \<lfloor>x\<rfloor>" using lo(1) by simp
    then show ?thesis using lo(2) f by linarith
  next
    case hi
    have "(of_int (round_half_even x) :: rat) = of_int \<lfloor>x\<rfloor> + 1" using hi(1) by simp
    then show ?thesis using hi(2) f by linarith
  qed
  then show "x - 1 / 2 \<le> of_int (round_half_even x)"
    and "of_int (round_half_even x) \<le> x + 1 / 2" by simp_all
qed

lemma round_half_even_le_int:
  assumes "x \<le> of_int n"
  shows "round_half_even x \<le> n"
proof -
  have fl: "\<lfloor>x\<rfloor> \<le> n" using assms by (simp add: floor_le_iff)
  show ?thesis
  proof (cases "\<lfloor>x\<rfloor> = n")
    case True
    then have "x = of_int n" using assms by (metis of_int_floor_le order_antisym)
    then show ?thesis by simp
  next
    case False
    then have "\<lfloor>x\<rfloor> + 1 \<le> n" using fl by simp
    moreover have "round_half_even x \<le> \<lfloor>x\<rfloor> + 1"
      by (simp add: round_half_even_def Let_def)
    ultimately show ?thesis by simp
  qed
qed

lemma round_half_even_ge_int:
  assumes "of_int n \<le> x"
  shows "n \<le> round_half_even x"
proof -
  have "n \<le> \<lfloor>x\<rfloor>" using assms by (simp add: le_floor_iff)
  moreover have "\<lfloor>x\<rfloor> \<le> round_half_even x"
    by (simp add: round_half_even_def Let_def)
  ultimately show ?thesis by simp
qed

lemma round_half_even_mono:
  assumes "x \<le> y"
  shows "round_half_even x \<le> round_half_even y"
proof (cases "\<lfloor>x\<rfloor> = \<lfloor>y\<rfloor>")
  case True
  then show ?thesis using assms by (auto simp: round_half_even_def Let_def)
next
  case False
  then have "\<lfloor>x\<rfloor> + 1 \<le> \<lfloor>y\<rfloor>" using floor_mono[OF assms] by simp
  moreover have "round_half_even x \<le> \<lfloor>x\<rfloor> + 1"
    by (simp add: round_half_even_def Let_def)
  moreover have "\<lfloor>y\<rfloor> \<le> round_half_even y"
    by (simp add: round_half_even_def Let_def)
  ultimately show ?thesis by simp
qed

lemma round_half_even_minus: "round_half_even (- x) = - round_half_even x"
proof (cases "x = of_int \<lfloor>x\<rfloor>")
  case True
  then have "round_half_even (- x) = round_half_even (of_int (- \<lfloor>x\<rfloor>))" by simp
  also have "\<dots> = - \<lfloor>x\<rfloor>" by (rule round_half_even_of_int)
  also have "\<dots> = - round_half_even x"
    using True by (metis round_half_even_of_int)
  finally show ?thesis .
next
  case False
  then have lt: "of_int \<lfloor>x\<rfloor> < x" by (metis of_int_floor_le order_le_less)
  have ub: "x < of_int \<lfloor>x\<rfloor> + 1" by linarith
  have fm: "\<lfloor>- x\<rfloor> = - \<lfloor>x\<rfloor> - 1"
  proof (rule floor_unique)
    show "of_int (- \<lfloor>x\<rfloor> - 1) \<le> - x" using ub by simp
    show "- x < of_int (- \<lfloor>x\<rfloor> - 1) + 1" using lt by simp
  qed
  show ?thesis
    using lt ub by (auto simp: round_half_even_def Let_def fm)
qed


lemma to_double_alt:
  "to_double x = (if x = 0 then Fin 0
                  else if pow2 1024 \<le> \<bar>rounded x\<bar> then (if 0 < x then PInf else NInf)
                  else Fin (rounded x))"
  by (simp add: to_double_def rounded_def quantum_def Let_def)

lemma quantum_pos [simp]: "0 < quantum x"
  by (simp add: quantum_def)

lemma quantum_nonneg [simp]: "0 \<le> quantum x"
  by (simp add: quantum_def)

lemma quantum_minus [simp]: "quantum (- x) = quantum x"
  by (simp add: quantum_def)

lemma round_half_even_0 [simp]: "round_half_even 0 = 0"
  by (simp add: round_half_even_def)

lemma rounded_zero [simp]: "rounded 0 = 0"
  by (simp add: rounded_def)

lemma rounded_minus: "rounded (- x) = - rounded x"
  by (simp add: rounded_def round_half_even_minus)

lemma to_double_minus: "to_double (- x) = fneg (to_double x)"
  by (auto simp: to_double_alt rounded_minus)

lemma rounded_nonneg:
  assumes "0 \<le> x"
  shows "0 \<le> rounded x"
proof -
  have "of_int 0 \<le> x / quantum x"
    using divide_nonneg_pos[OF assms quantum_pos] by simp
  then have "0 \<le> round_half_even (x / quantum x)" by (rule round_half_even_ge_int)
  then show ?thesis by (simp add: rounded_def)
qed

lemma rounded_nonpos:
  assumes "x \<le> 0"
  shows "rounded x \<le> 0"
  using rounded_nonneg[of "- x"] assms by (simp add: rounded_minus)

lemma pow2_53: "pow2 (e + 1) = of_int (2 ^ 53) * pow2 (e - 52)"
proof -
  have "pow2 (53 + (e - 52)) = pow2 53 * pow2 (e - 52)" by (rule pow2_add)
  moreover have "53 + (e - 52) = e + 1" by simp
  ultimately have "pow2 (e + 1) = pow2 53 * pow2 (e - 52)" by simp
  also have "pow2 53 = of_int (2 ^ 53)" by (simp add: pow2_def)
  finally show ?thesis .
qed

lemma pow2_52: "pow2 e = of_int (2 ^ 52) * pow2 (e - 52)"
proof -
  have "pow2 (52 + (e - 52)) = pow2 52 * pow2 (e - 52)" by (rule pow2_add)
  moreover have "52 + (e - 52) = e" by simp
  ultimately have "pow2 e = pow2 52 * pow2 (e - 52)" by simp
  also have "pow2 52 = of_int (2 ^ 52)" by (simp add: pow2_def)
  finally show ?thesis .
qed

lemma rounded_upper:
  assumes "0 < x"
  shows "rounded x \<le> pow2 (max (binade x) (- 1022) + 1)"
proof -
  define E where "E = max (binade x) (- 1022)"
  have q: "quantum x = pow2 (E - 52)" by (simp add: quantum_def E_def)
  have nz: "x \<noteq> 0" using assms by simp
  have "x < pow2 (binade x + 1)" using binade_bounds(2)[OF nz] assms by simp
  also have "\<dots> \<le> pow2 (E + 1)" by (rule pow2_mono) (simp add: E_def)
  finally have "x \<le> pow2 (E + 1)" by simp
  then have "x \<le> of_int (2 ^ 53) * quantum x" unfolding q pow2_53[symmetric] .
  then have "x / quantum x \<le> of_int (2 ^ 53)"
    by (simp add: pos_divide_le_eq)
  then have "round_half_even (x / quantum x) \<le> 2 ^ 53" by (rule round_half_even_le_int)
  then have "(of_int (round_half_even (x / quantum x)) :: rat) \<le> of_int (2 ^ 53)"
    using of_int_le_iff by blast
  then have "rounded x \<le> of_int (2 ^ 53) * quantum x"
    unfolding rounded_def by (rule mult_right_mono) simp
  then have "rounded x \<le> pow2 (E + 1)" unfolding q pow2_53[symmetric] .
  then show ?thesis by (simp add: E_def)
qed

lemma rounded_lower:
  assumes "0 < x" and "- 1022 \<le> binade x"
  shows "pow2 (binade x) \<le> rounded x"
proof -
  have q: "quantum x = pow2 (binade x - 52)" using assms(2) by (simp add: quantum_def max_def)
  have nz: "x \<noteq> 0" using assms by simp
  have "pow2 (binade x) \<le> x" using binade_bounds(1)[OF nz] assms(1) by simp
  then have "of_int (2 ^ 52) * quantum x \<le> x" unfolding q pow2_52[symmetric] .
  then have "of_int (2 ^ 52) \<le> x / quantum x"
    by (simp add: pos_le_divide_eq)
  then have "2 ^ 52 \<le> round_half_even (x / quantum x)" by (rule round_half_even_ge_int)
  then have "(of_int (2 ^ 52) :: rat) \<le> of_int (round_half_even (x / quantum x))"
    using of_int_le_iff by blast
  then have "of_int (2 ^ 52) * quantum x \<le> rounded x"
    unfolding rounded_def by (rule mult_right_mono) simp
  then show ?thesis unfolding q pow2_52[symmetric] .
qed

lemma rounded_mono_pos:
  assumes "0 < x" and "x \<le> y"
  shows "rounded x \<le> rounded y"
proof -
  have nx: "x \<noteq> 0" and ny: "y \<noteq> 0" and ypos: "0 < y" using assms by auto
  have bm: "binade x \<le> binade y" using binade_mono[OF nx] assms by simp
  show ?thesis
  proof (cases "max (binade x) (- 1022) = max (binade y) (- 1022)")
    case True
    then have q: "quantum x = quantum y" by (simp add: quantum_def)
    have "x / quantum y \<le> y / quantum y"
      using divide_right_mono[OF assms(2) less_imp_le[OF quantum_pos]] .
    then have "round_half_even (x / quantum y) \<le> round_half_even (y / quantum y)"
      by (rule round_half_even_mono)
    then have "(of_int (round_half_even (x / quantum y)) :: rat)
               \<le> of_int (round_half_even (y / quantum y))"
      using of_int_le_iff by blast
    then show ?thesis
      unfolding rounded_def q by (rule mult_right_mono) simp
  next
    case False
    then have lt: "max (binade x) (- 1022) < binade y" and ge: "- 1022 \<le> binade y"
      using bm by (auto simp: max_def split: if_splits)
    have "rounded x \<le> pow2 (max (binade x) (- 1022) + 1)" using rounded_upper[OF assms(1)] .
    also have "\<dots> \<le> pow2 (binade y)" by (rule pow2_mono) (use lt in linarith)
    also have "\<dots> \<le> rounded y" using rounded_lower[OF ypos ge] .
    finally show ?thesis .
  qed
qed

lemma rounded_mono:
  assumes "x \<le> y"
  shows "rounded x \<le> rounded y"
proof -
  consider (pos) "0 < x" | (mid) "x \<le> 0" "0 \<le> y" | (neg) "y < 0" by linarith
  then show ?thesis
  proof cases
    case pos
    then show ?thesis using rounded_mono_pos assms by blast
  next
    case mid
    then show ?thesis using rounded_nonpos[of x] rounded_nonneg[of y] by linarith
  next
    case neg
    then have "rounded (- y) \<le> rounded (- x)"
      using rounded_mono_pos[of "- y" "- x"] assms by simp
    then show ?thesis by (simp add: rounded_minus)
  qed
qed

lemma to_double_cases:
  "to_double x = (if pow2 1024 \<le> rounded x then PInf
                  else if rounded x \<le> - pow2 1024 then NInf
                  else Fin (rounded x))"
proof -
  have p: "(0::rat) < pow2 1024" by simp
  consider (z) "x = 0" | (pos) "0 < x" | (neg) "x < 0" by linarith
  then show ?thesis
  proof cases
    case z
    then show ?thesis using p by (simp add: to_double_alt)
  next
    case pos
    then have "0 \<le> rounded x" using rounded_nonneg[of x] by simp
    then show ?thesis using pos p by (simp add: to_double_alt abs_if)
  next
    case neg
    then have r: "rounded x \<le> 0" using rounded_nonpos[of x] by simp
    have np: "\<not> pow2 1024 \<le> rounded x" using r p by linarith
    have ab: "\<bar>rounded x\<bar> = - rounded x" using r by (rule abs_of_nonpos)
    have eq: "(pow2 1024 \<le> - rounded x) = (rounded x \<le> - pow2 1024)" by linarith
    have "to_double x = (if pow2 1024 \<le> - rounded x then NInf else Fin (rounded x))"
      using neg by (simp add: to_double_alt ab)
    then show ?thesis using np eq by simp
  qed
qed

lemma to_double_mono:
  assumes "x \<le> y"
  shows "fle (to_double x) (to_double y)"
proof -
  have m: "rounded x \<le> rounded y" using rounded_mono[OF assms] .
  have p: "(0::rat) < pow2 1024" by simp
  show ?thesis
    using m p by (auto simp: to_double_cases)
qed


lemma rounded_of_multiple:
  assumes "r = of_int k * quantum r"
  shows "rounded r = r"
proof -
  have "r / quantum r = of_int k"
    using assms quantum_pos[of r] by (metis less_irrefl nonzero_eq_divide_eq)
  then show ?thesis using assms by (simp add: rounded_def)
qed

lemma rounded_idem_pos:
  assumes "0 < x"
  shows "rounded (rounded x) = rounded x"
proof (cases "rounded x = 0")
  case True
  then show ?thesis by simp
next
  case False
  define E where "E = max (binade x) (- 1022)"
  define r where "r = rounded x"
  have rpos: "0 < r" using False rounded_nonneg[of x] assms by (simp add: r_def)
  have up: "r \<le> pow2 (E + 1)" using rounded_upper[OF assms] by (simp add: r_def E_def)
  have Ege: "- 1022 \<le> E" by (simp add: E_def)
  have "\<exists>k. r = of_int k * quantum r"
  proof (cases "r = pow2 (E + 1)")
    case True
    have "pow2 (E + 1) \<le> \<bar>r\<bar>" using True by simp
    moreover have "\<bar>r\<bar> < pow2 (E + 1 + 1)" using True by (simp add: pow2_less_iff)
    ultimately have b: "binade r = E + 1" by (rule binade_unique)
    have "quantum r = pow2 (E + 1 - 52)" using Ege by (simp add: quantum_def b max_def)
    then have "r = of_int (2 ^ 52) * quantum r" using True pow2_52[of "E + 1"] by simp
    then show ?thesis by blast
  next
    case F: False
    then have lt: "r < pow2 (E + 1)" using up by simp
    have rn: "r \<noteq> 0" using rpos by simp
    have m: "max (binade r) (- 1022) = E"
    proof (cases "- 1022 \<le> binade x")
      case True
      then have e: "E = binade x" by (simp add: E_def max_def)
      have "pow2 E \<le> \<bar>r\<bar>" using rounded_lower[OF assms True] rpos by (simp add: e r_def)
      moreover have "\<bar>r\<bar> < pow2 (E + 1)" using lt rpos by simp
      ultimately have "binade r = E" by (rule binade_unique)
      then show ?thesis using Ege by (simp add: max_def)
    next
      case False
      then have e: "E = - 1022" by (simp add: E_def max_def)
      have "pow2 (binade r) \<le> \<bar>r\<bar>" using binade_bounds(1)[OF rn] .
      also have "\<dots> < pow2 (E + 1)" using lt rpos by simp
      finally have "binade r < E + 1" by (simp add: pow2_less_iff)
      then show ?thesis using e by (simp add: max_def)
    qed
    have q: "quantum r = quantum x" by (simp add: quantum_def m E_def)
    have e1: "r = of_int (round_half_even (x / quantum x)) * quantum x"
      by (simp add: r_def rounded_def)
    have "r = of_int (round_half_even (x / quantum x)) * quantum r"
      by (subst q) (rule e1)
    then show ?thesis by blast
  qed
  then obtain k where "r = of_int k * quantum r" by blast
  then have "rounded r = r" by (rule rounded_of_multiple)
  then show ?thesis by (simp add: r_def)
qed

lemma rounded_idem: "rounded (rounded x) = rounded x"
proof -
  consider (z) "x = 0" | (pos) "0 < x" | (neg) "x < 0" by linarith
  then show ?thesis
  proof cases
    case z
    then show ?thesis by simp
  next
    case pos
    then show ?thesis by (rule rounded_idem_pos)
  next
    case neg
    then have "rounded (rounded (- x)) = rounded (- x)" by (intro rounded_idem_pos) simp
    then show ?thesis by (simp add: rounded_minus)
  qed
qed

lemma to_double_idem:
  assumes "to_double x = Fin r"
  shows "to_double r = Fin r"
proof -
  have r: "r = rounded x" and b: "\<not> pow2 1024 \<le> rounded x" "\<not> rounded x \<le> - pow2 1024"
    using assms by (auto simp: to_double_cases split: if_splits)
  have "rounded r = r" using rounded_idem[of x] r by simp
  then show ?thesis using b r by (simp add: to_double_cases)
qed

lemma to_double_eval:
  assumes "pow2 e \<le> \<bar>x\<bar>" and "\<bar>x\<bar> < pow2 (e + 1)" and "- 1022 \<le> e" and "e \<le> 1022"
  shows "to_double x = Fin (of_int (round_half_even (x / pow2 (e - 52))) * pow2 (e - 52))"
proof -
  have b: "binade x = e" using assms(1,2) by (rule binade_unique)
  have q: "quantum x = pow2 (e - 52)" using assms(3) by (simp add: quantum_def b max_def)
  have r: "rounded x = of_int (round_half_even (x / pow2 (e - 52))) * pow2 (e - 52)"
    by (simp add: rounded_def q)
  have nz: "x \<noteq> 0" using less_le_trans[OF pow2_pos assms(1)] by auto
  have up: "\<bar>rounded x\<bar> \<le> pow2 (e + 1)"
  proof (cases "0 < x")
    case True
    then have "rounded x \<le> pow2 (e + 1)" using rounded_upper[of x] assms(3) by (simp add: b max_def)
    moreover have "0 \<le> rounded x" using True rounded_nonneg[of x] by simp
    ultimately show ?thesis by simp
  next
    case False
    then have n: "0 < - x" using nz by simp
    have "rounded (- x) \<le> pow2 (e + 1)" using rounded_upper[OF n] assms(3) by (simp add: b max_def)
    moreover have "0 \<le> rounded (- x)" using n rounded_nonneg[of "- x"] by simp
    ultimately show ?thesis by (simp add: rounded_minus)
  qed
  have "pow2 (e + 1) < pow2 1024" using assms(4) by (simp add: pow2_less_iff)
  then have "\<not> pow2 1024 \<le> \<bar>rounded x\<bar>" using up by linarith
  then show ?thesis using nz r by (simp add: to_double_alt)
qed

lemma round_half_even_unique:
  assumes "\<bar>x - of_int m\<bar> < 1 / 2 \<or> (\<bar>x - of_int m\<bar> = 1 / 2 \<and> even m)"
  shows "round_half_even x = m"
proof (cases "of_int m \<le> x")
  case True
  then have "x < of_int m + 1" using assms by (auto simp: abs_if split: if_splits)
  then have f: "\<lfloor>x\<rfloor> = m" using True by (simp add: floor_unique)
  show ?thesis using assms True by (auto simp: round_half_even_def Let_def f abs_if)
next
  case False
  then have lt: "x < of_int m" by simp
  have "of_int m - 1 \<le> x" using assms lt by (auto simp: abs_if split: if_splits)
  then have f: "\<lfloor>x\<rfloor> = m - 1" using lt by (simp add: floor_unique)
  show ?thesis using assms lt by (auto simp: round_half_even_def Let_def f abs_if)
qed

lemma to_double_certificate:
  assumes "pow2 e \<le> \<bar>x\<bar>" and "\<bar>x\<bar> < pow2 (e + 1)" and "- 1022 \<le> e" and "e \<le> 1022"
    and "\<bar>x / pow2 (e - 52) - of_int m\<bar> < 1 / 2
         \<or> (\<bar>x / pow2 (e - 52) - of_int m\<bar> = 1 / 2 \<and> even m)"
  shows "to_double x = Fin (of_int m * pow2 (e - 52))"
  using to_double_eval[OF assms(1-4)] round_half_even_unique[OF assms(5)] by simp

lemma to_double_0 [simp]: "to_double 0 = Fin 0"
  by (simp add: to_double_def)

lemma to_double_of_int:
  assumes "\<bar>n\<bar> < 2 ^ 53"
  shows "to_double (of_int n) = Fin (of_int n)"
proof (cases "n = 0")
  case True
  then show ?thesis by simp
next
  case False
  define x :: rat where "x = of_int n"
  have nz: "x \<noteq> 0" using False by (simp add: x_def)
  have "pow2 0 \<le> \<bar>x\<bar>"
  proof -
    have "1 \<le> \<bar>n\<bar>" using False by simp
    then have "(1::rat) \<le> of_int \<bar>n\<bar>" using of_int_le_iff[of 1 "\<bar>n\<bar>"] by simp
    then show ?thesis by (simp add: pow2_def x_def)
  qed
  also have "\<dots> < pow2 (binade x + 1)" using binade_bounds(2)[OF nz] .
  finally have lo: "0 \<le> binade x" by (simp add: pow2_less_iff)
  have "(of_int \<bar>n\<bar> :: rat) < of_int (2 ^ 53)" using assms of_int_less_iff by blast
  then have lt: "\<bar>x\<bar> < pow2 53" by (simp add: pow2_def x_def)
  have "pow2 (binade x) \<le> \<bar>x\<bar>" using binade_bounds(1)[OF nz] .
  also have "\<dots> < pow2 53" using lt .
  finally have hi: "binade x < 53" by (simp add: pow2_less_iff)
  define j where "j = 52 - binade x"
  have j: "0 \<le> j" using hi by (simp add: j_def)
  have q: "quantum x = pow2 (- j)" using lo by (simp add: quantum_def max_def j_def)
  have one: "pow2 j * pow2 (- j) = 1"
    unfolding pow2_add[symmetric] by (simp add: pow2_def)
  have pj: "pow2 j = of_int (2 ^ nat j)" using j by (simp add: pow2_def power_int_def)
  have "of_int (n * 2 ^ nat j) * quantum x = x * (pow2 j * pow2 (- j))"
    unfolding q pj by (simp add: x_def)
  then have "x = of_int (n * 2 ^ nat j) * quantum x"
    by (simp only: one mult_1_right)
  then have r: "rounded x = x" by (rule rounded_of_multiple)
  have "\<bar>x\<bar> < pow2 1024"
    using lt pow2_strict_mono[of 53 1024] by simp
  then have "\<not> pow2 1024 \<le> x" "\<not> x \<le> - pow2 1024" by (auto simp: abs_if split: if_splits)
  then show ?thesis using r by (simp add: to_double_cases x_def[symmetric])
qed

lemma to_double_numeral:
  "(numeral w :: int) < 9007199254740992 \<Longrightarrow> to_double (numeral w) = Fin (numeral w)"
  using to_double_of_int[of "numeral w"] by simp

lemma to_double_neg_numeral:
  "(numeral w :: int) < 9007199254740992 \<Longrightarrow> to_double (- numeral w) = Fin (- numeral w)"
  using to_double_of_int[of "- numeral w"] by simp

lemma to_double_1 [simp]: "to_double 1 = Fin 1"
  using to_double_of_int[of 1] by simp

lemma representable_to_double [simp]: "representable (to_double x)"
  by (auto simp: representable_def split: jsnum.splits dest: to_double_idem)



lemma representable_0 [simp]: "representable (Fin 0)"
  by (simp add: representable_def)


lemma fadd_zero_right: "representable n \<Longrightarrow> fadd n (Fin 0) = n"
  by (cases n) (auto simp: representable_def)


lemma fsub_zero_right: "representable n \<Longrightarrow> fsub n (Fin 0) = n"
  by (simp add: fsub_def fadd_zero_right)

lemma toFixed2_digits_eq:
  assumes "of_int n \<le> \<bar>r\<bar> * 100 + 1 / 2" and "\<bar>r\<bar> * 100 + 1 / 2 < of_int n + 1"
  shows "toFixed2_digits r = n"
  unfolding toFixed2_digits_def using assms by (rule floor_unique)

lemma toFixed2_number_of_int:
  assumes "\<bar>n\<bar> < 2 ^ 53"
  shows "toFixed2_number (Fin (of_int n)) = Fin (of_int n)"
proof -
  have d: "toFixed2_digits (of_int n) = \<bar>n\<bar> * 100"
    by (rule toFixed2_digits_eq) simp_all
  have "(if (of_int n :: rat) < 0 then - 1 else 1) * of_int (\<bar>n\<bar> * 100) / 100 = (of_int n :: rat)"
    by (simp add: abs_if)
  then show ?thesis using to_double_of_int[OF assms] by (simp add: d)
qed

section \<open>Facts about the upload handler\<close>














section \<open>Rows of the upload, one to one\<close>

text \<open>
  The route throws at line 154 for every request that passes the two guards, and answers 400
  for the others: it sends no entry for any row. What follows is about the row handler.
\<close>

lemma upload_statement_outcomes:
  "upload_statement False bank = Inr (Status400 ''No file uploaded'')"
  "\<not> csvTemplates_truthy bank \<Longrightarrow> upload_statement True bank = Inr (Status400 ''Unsupported bank'')"
  "csvTemplates_truthy bank \<Longrightarrow> upload_statement True bank = Inl ReferenceError"
  by (simp_all add: upload_statement_def)




section \<open>Field lookup\<close>

text \<open>
  The lookup on some rows: a key is trimmed and found without regard to case; the exact name
  wins over a name that differs in case; the candidates are tried in order; without a match
  the result is \<^verbatim>\<open>undefined\<close>.
\<close>

lemma getVal_examples:
  "getVal (normalizedRow [('' Debit '', ''5'')]) [''debit''] = Inr (Str ''5'')"
  "getVal (normalizedRow [(''Debit'', ''1''), (''debit'', ''2'')]) [''debit''] = Inr (Str ''2'')"
  "getVal (normalizedRow [(''Debit'', ''1''), (''DEBIT'', ''2'')]) [''debit''] = Inr (Str ''1'')"
  "getVal (normalizedRow [(''debit'', ''1''), (''Withdrawal'', ''2'')]) [''withdrawal'', ''debit'']
     = Inr (Str ''2'')"
  "getVal (normalizedRow [(''x'', ''1'')]) [''debit''] = Inr Undefined"
  by code_simp+

text \<open>
  C5: for every raw row, the lookup tries the candidates in order, each by its exact name
  first and then without regard to case, and resolves to the first hit or to absent. The
  code does this for every row but those with a column named \<^verbatim>\<open>hasOwnProperty\<close>: there the
  row's own property shadows the method that \<^verbatim>\<open>getVal\<close> calls, the call throws, and nothing
  is resolved, although the row has the column \<^verbatim>\<open>debit\<close>.
\<close>

theorem getVal_shadowed_method:
  "getVal (normalizedRow [(''hasOwnProperty'', ''x''), (''debit'', ''5'')]) [''debit'']
     = Inl TypeError"
  by code_simp

section \<open>The amount with a debit or credit indicator\<close>

lemma trimStart_Cons: "\<not> js_whitespace c \<Longrightarrow> trimStart (c # t) = c # t"
  by (simp add: trimStart_def)

lemma trimEnd_Cons: "\<not> js_whitespace c \<Longrightarrow> trimEnd (c # t) = c # trimEnd t"
  by (simp add: trimEnd_def dropWhile_append)

lemma trim_Cons: "\<not> js_whitespace c \<Longrightarrow> trim (c # t) = c # trimEnd t"
  by (simp add: trim_def trimStart_Cons trimEnd_Cons)

lemma upper_char_D: "upper_char (CHR ''D'') = ''D''" "upper_char (CHR ''d'') = ''D''"
  by code_simp+

lemma upper_char_C: "upper_char (CHR ''C'') = ''C''" "upper_char (CHR ''c'') = ''C''"
  by code_simp+

lemma not_whitespace_DC:
  "\<not> js_whitespace (CHR ''D'')" "\<not> js_whitespace (CHR ''d'')"
  "\<not> js_whitespace (CHR ''C'')" "\<not> js_whitespace (CHR ''c'')"
  by (simp_all add: js_whitespace_def)

lemma indicator_D:
  assumes "c = CHR ''D'' \<or> c = CHR ''d''"
  shows "startsWith (toUpperCase (trim (c # t))) ''D''"
  using assms
  by (auto simp: trim_Cons not_whitespace_DC toUpperCase_def startsWith_def upper_char_D)

lemma indicator_C:
  assumes "c = CHR ''C'' \<or> c = CHR ''c''"
  shows "startsWith (toUpperCase (trim (c # t))) ''C''"
    and "\<not> startsWith (toUpperCase (trim (c # t))) ''D''"
  using assms
  by (auto simp: trim_Cons not_whitespace_DC toUpperCase_def startsWith_def upper_char_C)

lemma indicator_absent:
  assumes "i = Undefined \<or> i = Null \<or> (\<exists>s. i = Str s \<and> trim s = [])"
  shows "\<not> startsWith (toUpperCase (trim (or_empty i))) ''D''"
    and "\<not> startsWith (toUpperCase (trim (or_empty i))) ''C''"
proof -
  have "trim (or_empty i) = []"
    using assms by (auto simp: or_empty_def trim_def trimStart_def trimEnd_def)
  then show "\<not> startsWith (toUpperCase (trim (or_empty i))) ''D''"
    and "\<not> startsWith (toUpperCase (trim (or_empty i))) ''C''"
    by (simp_all add: toUpperCase_def startsWith_def)
qed

lemma extract_amounts_by_bank:
  "\<exists>ds cs. \<forall>r. extract_amounts bank r =
          (if bank = ''BANDHAN'' then bandhan_columns r else debit_credit_columns r ds cs)"
proof -
  consider (pnb) "bank = ''PNB''" | (bandhan) "bank = ''BANDHAN''"
    | (five) "bank \<noteq> ''PNB''" "bank \<noteq> ''BANDHAN''"
        "bank \<in> set [''CENTRAL'', ''ICICI'', ''SBI'', ''IDFC'', ''AXIS'']"
    | (hdfc) "bank \<noteq> ''PNB''" "bank \<noteq> ''BANDHAN''"
        "bank \<notin> set [''CENTRAL'', ''ICICI'', ''SBI'', ''IDFC'', ''AXIS'']" "bank = ''HDFC''"
    | (other) "bank \<noteq> ''PNB''" "bank \<noteq> ''BANDHAN''"
        "bank \<notin> set [''CENTRAL'', ''ICICI'', ''SBI'', ''IDFC'', ''AXIS'']" "bank \<noteq> ''HDFC''"
    by blast
  then show ?thesis
  proof cases
    case pnb
    have "\<forall>r. extract_amounts bank r =
        (if bank = ''BANDHAN'' then bandhan_columns r
         else debit_credit_columns r [''withdrawal'', ''withdrawals'', ''debit'']
                [''deposit'', ''deposits'', ''credit''])"
      using pnb by (simp add: extract_amounts_def)
    then show ?thesis by blast
  next
    case bandhan
    have "\<forall>r. extract_amounts bank r =
        (if bank = ''BANDHAN'' then bandhan_columns r else debit_credit_columns r [] [])"
      using bandhan by (simp add: extract_amounts_def)
    then show ?thesis by blast
  next
    case five
    have "\<forall>r. extract_amounts bank r =
        (if bank = ''BANDHAN'' then bandhan_columns r
         else debit_credit_columns r [''debit'', ''withdrawals'', ''withdrawal'']
                [''credit'', ''deposit'', ''deposits''])"
      using five unfolding extract_amounts_def by (simp only: if_False if_True simp_thms)
    then show ?thesis by blast
  next
    case hdfc
    have "\<forall>r. extract_amounts bank r =
        (if bank = ''BANDHAN'' then bandhan_columns r
         else debit_credit_columns r [''withdrawal'', ''withdrawals'', ''debit'']
                [''deposit'', ''deposits'', ''credit''])"
      using hdfc unfolding extract_amounts_def by (simp only: if_False if_True simp_thms)
    then show ?thesis by blast
  next
    case other
    have "\<forall>r. extract_amounts bank r =
        (if bank = ''BANDHAN'' then bandhan_columns r
         else debit_credit_columns r [''debit'', ''withdrawal'', ''withdrawals'']
                [''credit'', ''deposit'', ''deposits''])"
      using other unfolding extract_amounts_def by (simp only: if_False if_True simp_thms)
    then show ?thesis by blast
  qed
qed

lemmas parse_defs = parseNumberSafe_def remove_commas_def trim_def trimStart_def trimEnd_def
  js_whitespace_def in_parentheses_def strip_parentheses_def line_terminator_def isNaN_def
  parseFloat_def signed_number_def unsigned_number_def startsWith_def unsigned_literal_def
  is_digit_def dec_val_def digit_val_def exponent_part_def pow10_def Let_def

lemma parse_7: "parseNumberSafe (Str ''-7'') = Fin (- 7)"
  by (simp add: parse_defs to_double_numeral)

text \<open>
  The BANDHAN case of the switch, for a row on which both lookups return, with \<open>a\<close> the cell
  found for the amount and \<open>i\<close> the cell found for the indicator: an indicator that starts
  with \<^verbatim>\<open>D\<close> or \<^verbatim>\<open>d\<close> makes the parsed amount the debit and the credit zero; one that starts
  with \<^verbatim>\<open>C\<close> or \<^verbatim>\<open>c\<close> makes it the credit and the debit zero; without indicator, or with one
  that is empty or blank, an amount \<open>r\<close> below zero is a debit of \<open>- r\<close> and any other amount is
  the credit. Which of the two readings a row gets, and from which columns, depends on the
  bank alone.
\<close>

lemma bandhan_indicator_rules:
  "(getVal nr [''amount'', ''Amount''] = Inr a \<and>
    getVal nr [''dr_cr'', ''dr/cr'', ''dr cr'', ''cr_dr'', ''type''] = Inr i \<longrightarrow>
      ((\<exists>t. i = Str (CHR ''D'' # t) \<or> i = Str (CHR ''d'' # t)) \<longrightarrow>
         extract_amounts ''BANDHAN'' nr = Inr (parseNumberSafe a, Fin 0))
    \<and> ((\<exists>t. i = Str (CHR ''C'' # t) \<or> i = Str (CHR ''c'' # t)) \<longrightarrow>
         extract_amounts ''BANDHAN'' nr = Inr (Fin 0, parseNumberSafe a))
    \<and> ((i = Undefined \<or> i = Null \<or> (\<exists>s. i = Str s \<and> trim s = []))
         \<and> parseNumberSafe a = Fin r \<and> r < 0 \<longrightarrow>
         extract_amounts ''BANDHAN'' nr = Inr (Fin (- r), Fin 0))
    \<and> ((i = Undefined \<or> i = Null \<or> (\<exists>s. i = Str s \<and> trim s = []))
         \<and> parseNumberSafe a = NInf \<longrightarrow>
         extract_amounts ''BANDHAN'' nr = Inr (PInf, Fin 0))
    \<and> ((i = Undefined \<or> i = Null \<or> (\<exists>s. i = Str s \<and> trim s = []))
         \<and> \<not> flt (parseNumberSafe a) (Fin 0) \<longrightarrow>
         extract_amounts ''BANDHAN'' nr = Inr (Fin 0, parseNumberSafe a)))
   \<and> (\<exists>ds cs. \<forall>r. extract_amounts bank r =
          (if bank = ''BANDHAN'' then bandhan_columns r else debit_credit_columns r ds cs))"
proof (intro conjI impI)
  show "\<exists>ds cs. \<forall>r. extract_amounts bank r =
          (if bank = ''BANDHAN'' then bandhan_columns r else debit_credit_columns r ds cs)"
    by (rule extract_amounts_by_bank)
next
  assume g: "getVal nr [''amount'', ''Amount''] = Inr a \<and>
    getVal nr [''dr_cr'', ''dr/cr'', ''dr cr'', ''cr_dr'', ''type''] = Inr i"
  have e: "extract_amounts ''BANDHAN'' nr =
     (let amt = parseNumberSafe a; drcr = toUpperCase (trim (or_empty i)) in
        if startsWith drcr ''D'' then Inr (amt, Fin 0)
        else if startsWith drcr ''C'' then Inr (Fin 0, amt)
        else if flt amt (Fin 0) then Inr (Math_abs amt, Fin 0)
        else Inr (Fin 0, amt))"
    using g by (simp add: extract_amounts_def bandhan_columns_def del: getVal.simps)
  {
    assume "\<exists>t. i = Str (CHR ''D'' # t) \<or> i = Str (CHR ''d'' # t)"
    then obtain c t where i: "i = Str (c # t)" and c: "c = CHR ''D'' \<or> c = CHR ''d''" by blast
    have "startsWith (toUpperCase (trim (or_empty i))) ''D''"
      using indicator_D[OF c, of t] by (simp add: i or_empty_def)
    then show "extract_amounts ''BANDHAN'' nr = Inr (parseNumberSafe a, Fin 0)"
      by (simp add: e Let_def)
  }
  {
    assume "\<exists>t. i = Str (CHR ''C'' # t) \<or> i = Str (CHR ''c'' # t)"
    then obtain c t where i: "i = Str (c # t)" and c: "c = CHR ''C'' \<or> c = CHR ''c''" by blast
    have "startsWith (toUpperCase (trim (or_empty i))) ''C''"
      and "\<not> startsWith (toUpperCase (trim (or_empty i))) ''D''"
      using indicator_C[OF c, of t] by (simp_all add: i or_empty_def)
    then show "extract_amounts ''BANDHAN'' nr = Inr (Fin 0, parseNumberSafe a)"
      by (simp add: e Let_def)
  }
  {
    assume u: "(i = Undefined \<or> i = Null \<or> (\<exists>s. i = Str s \<and> trim s = []))
         \<and> parseNumberSafe a = Fin r \<and> r < 0"
    then have ab: "i = Undefined \<or> i = Null \<or> (\<exists>s. i = Str s \<and> trim s = [])" by blast
    have "\<not> startsWith (toUpperCase (trim (or_empty i))) ''D''"
      and "\<not> startsWith (toUpperCase (trim (or_empty i))) ''C''"
      using indicator_absent[OF ab] by simp_all
    then show "extract_amounts ''BANDHAN'' nr = Inr (Fin (- r), Fin 0)"
      using u by (simp add: e Let_def)
  }
  {
    assume u: "(i = Undefined \<or> i = Null \<or> (\<exists>s. i = Str s \<and> trim s = []))
         \<and> parseNumberSafe a = NInf"
    then have ab: "i = Undefined \<or> i = Null \<or> (\<exists>s. i = Str s \<and> trim s = [])" by blast
    have "\<not> startsWith (toUpperCase (trim (or_empty i))) ''D''"
      and "\<not> startsWith (toUpperCase (trim (or_empty i))) ''C''"
      using indicator_absent[OF ab] by simp_all
    then show "extract_amounts ''BANDHAN'' nr = Inr (PInf, Fin 0)"
      using u by (simp add: e Let_def)
  }
  {
    assume u: "(i = Undefined \<or> i = Null \<or> (\<exists>s. i = Str s \<and> trim s = []))
         \<and> \<not> flt (parseNumberSafe a) (Fin 0)"
    then have ab: "i = Undefined \<or> i = Null \<or> (\<exists>s. i = Str s \<and> trim s = [])" by blast
    have "\<not> startsWith (toUpperCase (trim (or_empty i))) ''D''"
      and "\<not> startsWith (toUpperCase (trim (or_empty i))) ''C''"
      using indicator_absent[OF ab] by simp_all
    then show "extract_amounts ''BANDHAN'' nr = Inr (Fin 0, parseNumberSafe a)"
      using u by (simp add: e Let_def)
  }
qed

lemma bandhan_indicator_examples:
  "extract_amounts ''BANDHAN'' (normalizedRow [(''amount'', ''5''), (''dr_cr'', ''dr'')])
     = Inr (Fin 5, Fin 0)"
  "extract_amounts ''BANDHAN'' (normalizedRow [(''amount'', ''5''), (''dr_cr'', '' Cr'')])
     = Inr (Fin 0, Fin 5)"
  "extract_amounts ''BANDHAN'' (normalizedRow [(''Amount'', ''-7'')]) = Inr (Fin 7, Fin 0)"
  "extract_amounts ''BANDHAN'' (normalizedRow [(''Amount'', ''-7''), (''dr_cr'', [])])
     = Inr (Fin 7, Fin 0)"
  "extract_amounts ''BANDHAN'' (normalizedRow [(''Amount'', ''7''), (''dr_cr'', '' '')])
     = Inr (Fin 0, Fin 7)"
proof -
  have n: "normalizedRow [(''amount'', ''5''), (''dr_cr'', ''dr'')]
             = [(''amount'', ''5''), (''dr_cr'', ''dr'')]"
    "normalizedRow [(''amount'', ''5''), (''dr_cr'', '' Cr'')]
             = [(''amount'', ''5''), (''dr_cr'', '' Cr'')]"
    "normalizedRow [(''Amount'', ''-7'')] = [(''Amount'', ''-7'')]"
    "normalizedRow [(''Amount'', ''-7''), (''dr_cr'', [])] = [(''Amount'', ''-7''), (''dr_cr'', [])]"
    "normalizedRow [(''Amount'', ''7''), (''dr_cr'', '' '')] = [(''Amount'', ''7''), (''dr_cr'', '' '')]"
    by code_simp+
  have g: "getVal [(''amount'', ''5''), (''dr_cr'', ''dr'')] [''amount'', ''Amount''] = Inr (Str ''5'')"
    "getVal [(''amount'', ''5''), (''dr_cr'', ''dr'')]
       [''dr_cr'', ''dr/cr'', ''dr cr'', ''cr_dr'', ''type''] = Inr (Str ''dr'')"
    "getVal [(''amount'', ''5''), (''dr_cr'', '' Cr'')] [''amount'', ''Amount''] = Inr (Str ''5'')"
    "getVal [(''amount'', ''5''), (''dr_cr'', '' Cr'')]
       [''dr_cr'', ''dr/cr'', ''dr cr'', ''cr_dr'', ''type''] = Inr (Str '' Cr'')"
    "getVal [(''Amount'', ''-7'')] [''amount'', ''Amount''] = Inr (Str ''-7'')"
    "getVal [(''Amount'', ''-7'')] [''dr_cr'', ''dr/cr'', ''dr cr'', ''cr_dr'', ''type'']
       = Inr Undefined"
    "getVal [(''Amount'', ''-7''), (''dr_cr'', [])] [''amount'', ''Amount''] = Inr (Str ''-7'')"
    "getVal [(''Amount'', ''-7''), (''dr_cr'', [])]
       [''dr_cr'', ''dr/cr'', ''dr cr'', ''cr_dr'', ''type''] = Inr (Str [])"
    "getVal [(''Amount'', ''7''), (''dr_cr'', '' '')] [''amount'', ''Amount''] = Inr (Str ''7'')"
    "getVal [(''Amount'', ''7''), (''dr_cr'', '' '')]
       [''dr_cr'', ''dr/cr'', ''dr cr'', ''cr_dr'', ''type''] = Inr (Str '' '')"
    by code_simp+
  have u: "toUpperCase (trim ''dr'') = ''DR''" "toUpperCase (trim '' Cr'') = ''CR''"
    "toUpperCase (trim []) = []" "toUpperCase (trim '' '') = []"
    by code_simp+
  have p: "parseNumberSafe (Str ''5'') = Fin 5" "parseNumberSafe (Str ''7'') = Fin 7"
    "parseNumberSafe (Str ''-7'') = Fin (- 7)"
    by (simp_all add: parse_defs to_double_numeral)
  show "extract_amounts ''BANDHAN'' (normalizedRow [(''amount'', ''5''), (''dr_cr'', ''dr'')])
     = Inr (Fin 5, Fin 0)"
    "extract_amounts ''BANDHAN'' (normalizedRow [(''amount'', ''5''), (''dr_cr'', '' Cr'')])
     = Inr (Fin 0, Fin 5)"
    "extract_amounts ''BANDHAN'' (normalizedRow [(''Amount'', ''-7'')]) = Inr (Fin 7, Fin 0)"
    "extract_amounts ''BANDHAN'' (normalizedRow [(''Amount'', ''-7''), (''dr_cr'', [])])
     = Inr (Fin 7, Fin 0)"
    "extract_amounts ''BANDHAN'' (normalizedRow [(''Amount'', ''7''), (''dr_cr'', '' '')])
     = Inr (Fin 0, Fin 7)"
    by (simp_all add: n extract_amounts_def bandhan_columns_def g u p or_empty_def Let_def
        startsWith_def del: getVal.simps)
qed

text \<open>
  C6: for every row processed under the BANDHAN schema, an indicator that starts with \<^verbatim>\<open>D\<close>
  makes the amount the debit. A row that has a column named \<^verbatim>\<open>hasOwnProperty\<close> shadows the
  method that \<^verbatim>\<open>getVal\<close> calls (line 169): with the amount 100 and the indicator \<^verbatim>\<open>D\<close> the
  lookup throws, no debit is resolved, and the row handler pushes no entry for the row.
\<close>

theorem bandhan_indicator_shadowed:
  "extract_amounts ''BANDHAN''
     (normalizedRow [(''hasOwnProperty'', ''x''), (''amount'', ''100''), (''dr_cr'', ''D'')])
     = Inl TypeError
   \<and> results ''BANDHAN'' [[(''hasOwnProperty'', ''x''), (''amount'', ''100''), (''dr_cr'', ''D'')]]
     = []"
  by code_simp

section \<open>The running balance\<close>


lemma toFixed2_number_numeral:
  "(numeral w :: int) < 9007199254740992 \<Longrightarrow>
     toFixed2_number (Fin (numeral w)) = Fin (numeral w)"
  "(numeral w :: int) < 9007199254740992 \<Longrightarrow>
     toFixed2_number (Fin (- numeral w)) = Fin (- numeral w)"
  using toFixed2_number_of_int[of "numeral w"] toFixed2_number_of_int[of "- numeral w"]
  by simp_all

lemma representable_Inf [simp]: "representable PInf" "representable NInf"
  by (simp_all add: representable_def)




lemma representable_NaN [simp]: "representable NaN"
  by (simp add: representable_def)









lemma row_handler_pnb_scenario:
  "map balance (results ''PNB''
     [[(''debit'', ''100''), (''credit'', ''0'')], [(''debit'', ''0''), (''credit'', ''250'')],
      [(''debit'', ''50''), (''credit'', ''0'')]]) = [Fin (- 100), Fin 150, Fin 100]"
proof -
  have n: "normalizedRow [(''debit'', ''100''), (''credit'', ''0'')]
             = [(''debit'', ''100''), (''credit'', ''0'')]"
          "normalizedRow [(''debit'', ''0''), (''credit'', ''250'')]
             = [(''debit'', ''0''), (''credit'', ''250'')]"
          "normalizedRow [(''debit'', ''50''), (''credit'', ''0'')]
             = [(''debit'', ''50''), (''credit'', ''0'')]"
    by code_simp+
  have g: "getVal [(''debit'', ''100''), (''credit'', ''0'')] [''withdrawal'', ''withdrawals'', ''debit'']
             = Inr (Str ''100'')"
          "getVal [(''debit'', ''100''), (''credit'', ''0'')] [''deposit'', ''deposits'', ''credit'']
             = Inr (Str ''0'')"
          "getVal [(''debit'', ''0''), (''credit'', ''250'')] [''withdrawal'', ''withdrawals'', ''debit'']
             = Inr (Str ''0'')"
          "getVal [(''debit'', ''0''), (''credit'', ''250'')] [''deposit'', ''deposits'', ''credit'']
             = Inr (Str ''250'')"
          "getVal [(''debit'', ''50''), (''credit'', ''0'')] [''withdrawal'', ''withdrawals'', ''debit'']
             = Inr (Str ''50'')"
          "getVal [(''debit'', ''50''), (''credit'', ''0'')] [''deposit'', ''deposits'', ''credit'']
             = Inr (Str ''0'')"
    by code_simp+
  have p: "parseNumberSafe (Str ''100'') = Fin 100" "parseNumberSafe (Str ''0'') = Fin 0"
          "parseNumberSafe (Str ''250'') = Fin 250" "parseNumberSafe (Str ''50'') = Fin 50"
    by (simp_all add: parse_defs to_double_numeral)
  show ?thesis
    by (simp add: results_def on_data_def n extract_amounts_def debit_credit_columns_def
        g p Let_def fsub_def to_double_numeral to_double_neg_numeral toFixed2_number_numeral
        del: getVal.simps toFixed2_number.simps)
qed

text \<open>Some doubles, and what two decimals make of them.\<close>

lemma double_tenth: "to_double (1 / 10) = Fin (3602879701896397 / 36028797018963968)"
  using to_double_certificate[of "- 4" "1 / 10" 7205759403792794]
  by (simp add: pow2_def)

lemma double_fifth: "to_double (1 / 5) = Fin (3602879701896397 / 18014398509481984)"
  using to_double_certificate[of "- 3" "1 / 5" 7205759403792794]
  by (simp add: pow2_def)

lemma double_three_tenths: "to_double (3 / 10) = Fin (5404319552844595 / 18014398509481984)"
  using to_double_certificate[of "- 2" "3 / 10" 5404319552844595]
  by (simp add: pow2_def)

lemma double_sum:
  "to_double (10808639105689191 / 36028797018963968) = Fin (1351079888211149 / 4503599627370496)"
  using to_double_certificate[of "- 2" "10808639105689191 / 36028797018963968" 5404319552844596]
  by (simp add: pow2_def)

lemma parseFloat_tenth: "parseFloat ''0.1'' = Fin (3602879701896397 / 36028797018963968)"
  by (simp add: parse_defs double_tenth)

lemma parseFloat_fifth: "parseFloat ''0.2'' = Fin (3602879701896397 / 18014398509481984)"
  by (simp add: parse_defs double_fifth)

lemma idem_tenth:
  "to_double (3602879701896397 / 36028797018963968) = Fin (3602879701896397 / 36028797018963968)"
  using to_double_idem[OF double_tenth] .

lemma idem_sum:
  "to_double (1351079888211149 / 4503599627370496) = Fin (1351079888211149 / 4503599627370496)"
  using to_double_idem[OF double_sum] .

lemma toFixed2_tenth:
  "toFixed2_number (Fin (3602879701896397 / 36028797018963968))
     = Fin (3602879701896397 / 36028797018963968)"
proof -
  have "toFixed2_digits (3602879701896397 / 36028797018963968) = 10"
    by (rule toFixed2_digits_eq) simp_all
  then show ?thesis by (simp add: double_tenth)
qed

lemma toFixed2_sum:
  "toFixed2_number (Fin (1351079888211149 / 4503599627370496))
     = Fin (5404319552844595 / 18014398509481984)"
proof -
  have "toFixed2_digits (1351079888211149 / 4503599627370496) = 30"
    by (rule toFixed2_digits_eq) simp_all
  then show ?thesis by (simp add: double_three_tenths)
qed

text \<open>
  C3: the running balance is rounded to two decimals at every step. The row handler of the
  upload does so (\<open>row_handler_ledger\<close>, and \<open>row_handler_pnb_scenario\<close> for the balances
  \<open>[-100, 150, 100]\<close>); the import adds and subtracts without rounding. For the two
  credits 0.1 and 0.2 the import stores the balances 0.1 and 0.30000000000000004, where the
  ledger rounded at every step has 0.1 and 0.3.
\<close>

theorem import_csv_balance_not_rounded:
  "map e_balance (import_csv [[(''credit'', ''0.1'')], [(''credit'', ''0.2'')]])
     = [Fin (3602879701896397 / 36028797018963968), Fin (1351079888211149 / 4503599627370496)]
   \<and> computeLedger (Fin 0) [(Fin 0, parseFloat ''0.1''), (Fin 0, parseFloat ''0.2'')]
     = [Fin (3602879701896397 / 36028797018963968), Fin (5404319552844595 / 18014398509481984)]"
proof
  show "map e_balance (import_csv [[(''credit'', ''0.1'')], [(''credit'', ''0.2'')]])
     = [Fin (3602879701896397 / 36028797018963968), Fin (1351079888211149 / 4503599627370496)]"
    by (simp add: import_csv_def import_row_def get_prop_def amount_of_def Let_def fsub_def
        parseFloat_tenth parseFloat_fifth idem_tenth double_sum)
  show "computeLedger (Fin 0) [(Fin 0, parseFloat ''0.1''), (Fin 0, parseFloat ''0.2'')]
     = [Fin (3602879701896397 / 36028797018963968), Fin (5404319552844595 / 18014398509481984)]"
    by (simp add: parseFloat_tenth parseFloat_fifth Let_def fsub_def idem_tenth idem_sum
        toFixed2_tenth double_sum toFixed2_sum del: toFixed2_number.simps)
qed

section \<open>The first balance\<close>







section \<open>Unknown institution identifiers\<close>

text \<open>
  An identifier with a character that a header value may not hold, a line feed for one,
  makes line 2605 throw: nothing is drawn and no document is sent.
\<close>

lemma generate_pdf_invalid_header:
  "\<not> list_all header_char bank \<Longrightarrow>
     generate_pdf (Some bank) account transactions = Throws ERR_INVALID_CHAR"
  "generate_pdf (Some [CHR 0x0A]) account transactions = Throws ERR_INVALID_CHAR"
  by (simp_all add: generate_pdf_def header_char_def)




section \<open>Parsing an amount\<close>

lemma to_double_not_NaN [simp]: "to_double x \<noteq> NaN"
  by (simp add: to_double_cases)

lemma fneg_NaN_iff [simp]: "fneg n = NaN \<longleftrightarrow> n = NaN"
  by (cases n) simp_all

lemma parseNumberSafe_not_NaN: "parseNumberSafe v \<noteq> NaN"
  by (auto simp: parseNumberSafe_def Let_def isNaN_def split: cell.splits)

lemma trimEnd_snoc: "\<not> js_whitespace c \<Longrightarrow> trimEnd (xs @ [c]) = xs @ [c]"
  by (simp add: trimEnd_def)

lemma trimEnd_append: "trimEnd ys \<noteq> [] \<Longrightarrow> trimEnd (xs @ ys) = xs @ trimEnd ys"
  by (auto simp: trimEnd_def dropWhile_append)

lemma trimEnd_idem [simp]: "trimEnd (trimEnd s) = trimEnd s"
proof (cases "dropWhile js_whitespace (rev s)")
  case Nil
  then show ?thesis by (simp add: trimEnd_def)
next
  case (Cons c t)
  then have "\<not> js_whitespace c" by (metis dropWhile_eq_Cons_conv)
  then show ?thesis by (simp add: trimEnd_def Cons)
qed

lemma trimStart_idem [simp]: "trimStart (trimStart s) = trimStart s"
  by (simp add: trimStart_def dropWhile_idem)

lemma trimStart_trimEnd: "trimStart (trimEnd s) = trimEnd (trimStart s)"
proof (induction s)
  case Nil
  then show ?case by (simp add: trimStart_def trimEnd_def)
next
  case (Cons c s)
  show ?case
  proof (cases "js_whitespace c")
    case False
    then show ?thesis by (simp add: trimEnd_Cons trimStart_Cons)
  next
    case True
    show ?thesis
    proof (cases "trimEnd s = []")
      case e: True
      then have a: "\<forall>x \<in> set s. js_whitespace x"
        by (auto simp: trimEnd_def dropWhile_eq_Nil_conv)
      then have 1: "trimEnd (c # s) = []" using True
        by (auto simp: trimEnd_def dropWhile_eq_Nil_conv)
      have 2: "trimStart (c # s) = []" using a True
        by (auto simp: trimStart_def dropWhile_eq_Nil_conv)
      have 3: "trimStart [] = []" "trimEnd [] = []"
        by (simp_all add: trimStart_def trimEnd_def)
      show ?thesis by (simp only: 1 2 3)
    next
      case ne: False
      have "trimEnd (c # s) = c # trimEnd s"
        using trimEnd_append[of s "[c]"] ne by simp
      then show ?thesis using True Cons.IH by (simp add: trimStart_def)
    qed
  qed
qed

lemma trim_idem [simp]: "trim (trim s) = trim s"
  by (simp add: trim_def trimStart_trimEnd)

lemma remove_commas_idem [simp]: "remove_commas (remove_commas s) = remove_commas s"
  by (simp add: remove_commas_def)

lemma set_trim: "set (trim s) \<subseteq> set s"
  by (auto simp: trim_def trimStart_def trimEnd_def dest!: set_dropWhileD)

lemma remove_commas_id: "CHR '','' \<notin> set s \<Longrightarrow> remove_commas s = s"
  by (auto simp: remove_commas_def filter_id_conv)

lemma no_comma_remove_commas: "CHR '','' \<notin> set (remove_commas s)"
  by (simp add: remove_commas_def)

lemma cleaned_idem:
  "trim (remove_commas (trim (remove_commas s))) = trim (remove_commas s)"
proof -
  have "CHR '','' \<notin> set (trim (remove_commas s))"
    using set_trim[of "remove_commas s"] no_comma_remove_commas[of s] by blast
  then show ?thesis by (simp add: remove_commas_id)
qed

lemma parseNumberSafe_cleaned:
  "parseNumberSafe (Str s) = parseNumberSafe (Str (trim (remove_commas s)))"
  by (simp add: parseNumberSafe_def cleaned_idem)

lemma all_whitespace_trim: "(\<forall>x \<in> set s. js_whitespace x) \<longleftrightarrow> trim s = []"
proof
  assume "\<forall>x \<in> set s. js_whitespace x"
  then have "trimStart s = []" by (simp add: trimStart_def dropWhile_eq_Nil_conv)
  then show "trim s = []" by (simp add: trim_def trimEnd_def)
next
  assume t: "trim s = []"
  then have "\<forall>x \<in> set (trimStart s). js_whitespace x"
    by (simp add: trim_def trimEnd_def dropWhile_eq_Nil_conv)
  then have "trimStart s = []"
    unfolding trimStart_def by (metis dropWhile_eq_Nil_conv dropWhile_idem)
  then show "\<forall>x \<in> set s. js_whitespace x"
    by (simp add: trimStart_def dropWhile_eq_Nil_conv)
qed

lemma parseNumberSafe_blank:
  assumes "trim s = []"
  shows "parseNumberSafe (Str s) = Fin 0"
proof -
  have "\<forall>x \<in> set s. js_whitespace x" using assms all_whitespace_trim by blast
  then have "\<forall>x \<in> set (remove_commas s). js_whitespace x" by (simp add: remove_commas_def)
  then have "trim (remove_commas s) = []" using all_whitespace_trim by blast
  then show ?thesis by (simp add: parseNumberSafe_def)
qed

lemma unsigned_decimal_eq:
  "takeWhile is_digit s = ds \<Longrightarrow> dropWhile is_digit s = rest \<Longrightarrow>
   unsigned_decimal s =
     (if ds = [] then None
      else case rest of
             [] \<Rightarrow> Some (of_nat (dec_val ds))
           | c # fs \<Rightarrow>
               if c = CHR ''.'' \<and> fs \<noteq> [] \<and> list_all is_digit fs
               then Some (of_nat (dec_val ds) + of_nat (dec_val fs) / 10 ^ length fs)
               else None)"
  by (auto simp: unsigned_decimal_def Let_def split: list.splits)

lemma unsigned_literal_eq:
  "takeWhile is_digit s = ds \<Longrightarrow> dropWhile is_digit s = r \<Longrightarrow>
   unsigned_literal s =
     (case r of
        c # t \<Rightarrow>
          if c = CHR ''.'' then
            (if ds = [] \<and> takeWhile is_digit t = [] then None
             else Some ((of_nat (dec_val ds)
                           + of_nat (dec_val (takeWhile is_digit t))
                             / 10 ^ length (takeWhile is_digit t))
                          * pow10 (fst (exponent_part (dropWhile is_digit t))),
                        snd (exponent_part (dropWhile is_digit t))))
          else if ds = [] then None
          else Some (of_nat (dec_val ds) * pow10 (fst (exponent_part r)), snd (exponent_part r))
      | [] \<Rightarrow> if ds = [] then None else Some (of_nat (dec_val ds), []))"
  by (auto simp: unsigned_literal_def Let_def split: list.splits)

lemma unsigned_decimal_cases:
  assumes "unsigned_decimal s = Some r"
  obtains (whole) "s \<noteq> []" "list_all is_digit s" "r = of_nat (dec_val s)"
  | (fraction) ds fs where "s = ds @ CHR ''.'' # fs" "ds \<noteq> []" "fs \<noteq> []"
      "list_all is_digit ds" "list_all is_digit fs"
      "r = of_nat (dec_val ds) + of_nat (dec_val fs) / 10 ^ length fs"
proof -
  define ds where "ds = takeWhile is_digit s"
  define rest where "rest = dropWhile is_digit s"
  have s: "s = ds @ rest" by (simp add: ds_def rest_def)
  have d: "list_all is_digit ds" by (auto simp: ds_def list_all_iff dest: set_takeWhileD)
  have e: "(if ds = [] then None
      else case rest of
             [] \<Rightarrow> Some (of_nat (dec_val ds))
           | c # fs \<Rightarrow>
               if c = CHR ''.'' \<and> fs \<noteq> [] \<and> list_all is_digit fs
               then Some (of_nat (dec_val ds) + of_nat (dec_val fs) / 10 ^ length fs)
               else None) = Some r"
    using assms unsigned_decimal_eq[OF ds_def[symmetric] rest_def[symmetric]] by simp
  then have ne: "ds \<noteq> []" by (auto split: if_splits)
  show ?thesis
  proof (cases rest)
    case Nil
    then have "r = of_nat (dec_val ds)" using e ne by simp
    moreover have "s = ds" using s Nil by simp
    ultimately show ?thesis using whole ne d by blast
  next
    case (Cons c fs)
    then have "c = CHR ''.'' \<and> fs \<noteq> [] \<and> list_all is_digit fs
        \<and> r = of_nat (dec_val ds) + of_nat (dec_val fs) / 10 ^ length fs"
      using e ne by (auto split: if_splits)
    moreover have "s = ds @ c # fs" using s Cons by simp
    ultimately show ?thesis using fraction[of ds fs] ne d by blast
  qed
qed

lemma not_digit_point [simp]: "\<not> is_digit (CHR ''.'')"
  by (simp add: is_digit_def)

lemma takeWhile_digits:
  "list_all is_digit ds \<Longrightarrow> stops w \<or> (\<exists>u. w = CHR ''.'' # u) \<Longrightarrow>
     takeWhile is_digit (ds @ w) = ds \<and> dropWhile is_digit (ds @ w) = w"
  by (cases w) (auto simp: list_all_iff stops_def takeWhile_append dropWhile_append)

lemma exponent_part_stops: "stops w \<Longrightarrow> exponent_part w = (0, w)"
  by (cases w) (auto simp: exponent_part_def stops_def)

lemma unsigned_literal_decimal:
  assumes "unsigned_decimal s = Some r" and "stops w"
  shows "unsigned_literal (s @ w) = Some (r, w)"
  using assms(1)
proof (cases rule: unsigned_decimal_cases)
  case whole
  have t: "takeWhile is_digit (s @ w) = s" "dropWhile is_digit (s @ w) = w"
    using takeWhile_digits[of s w] whole assms(2) by simp_all
  show ?thesis
  proof (cases w)
    case Nil
    then show ?thesis
      unfolding unsigned_literal_eq[OF t] using whole by simp
  next
    case (Cons c u)
    then have "c \<noteq> CHR ''.''" using assms(2) by (simp add: stops_def)
    then show ?thesis
      unfolding unsigned_literal_eq[OF t] exponent_part_stops[OF assms(2)]
      using whole Cons by (simp add: pow10_def)
  qed
next
  case (fraction ds fs)
  have t: "takeWhile is_digit (s @ w) = ds" "dropWhile is_digit (s @ w) = CHR ''.'' # fs @ w"
    using takeWhile_digits[of ds "CHR ''.'' # fs @ w"] fraction by simp_all
  have u: "takeWhile is_digit (fs @ w) = fs" "dropWhile is_digit (fs @ w) = w"
    using takeWhile_digits[of fs w] fraction assms(2) by simp_all
  show ?thesis
    unfolding unsigned_literal_eq[OF t]
    using fraction(2,3,6) by (simp add: u exponent_part_stops[OF assms(2)] pow10_def)
qed

lemma unsigned_decimal_hd:
  assumes "unsigned_decimal s = Some r"
  obtains c t where "s = c # t" "is_digit c"
  using assms
proof (cases rule: unsigned_decimal_cases)
  case whole
  then show ?thesis using that by (cases s) (auto)
next
  case (fraction ds fs)
  then show ?thesis using that by (cases ds) (auto)
qed

lemma is_digit_not:
  "is_digit c \<Longrightarrow> c \<noteq> CHR ''I'' \<and> c \<noteq> CHR ''-'' \<and> c \<noteq> CHR ''+'' \<and> c \<noteq> CHR ''(''
     \<and> c \<noteq> CHR '','' \<and> \<not> js_whitespace c \<and> \<not> line_terminator c"
  by (auto simp: is_digit_def js_whitespace_def line_terminator_def)

lemma unsigned_number_decimal:
  assumes "unsigned_decimal s = Some r" and "stops w"
  shows "unsigned_number (s @ w) = Some (to_double r, w)"
proof -
  obtain c t where s: "s = c # t" and c: "is_digit c"
    using assms(1) by (rule unsigned_decimal_hd)
  have "\<not> startsWith (s @ w) ''Infinity''"
    using is_digit_not[OF c] by (simp add: s startsWith_def)
  then show ?thesis
    using unsigned_literal_decimal[OF assms] by (simp add: unsigned_number_def)
qed

lemma signed_number_decimal:
  assumes "decimal_number s = Some r" and "stops w"
  shows "signed_number (s @ w) = Some (to_double r, w)"
proof (cases s)
  case Nil
  then show ?thesis using assms by (simp add: decimal_number_def)
next
  case (Cons c t)
  show ?thesis
  proof (cases "c = CHR ''-''")
    case True
    then obtain r' where r': "unsigned_decimal t = Some r'" "r = - r'"
      using assms(1) Cons by (auto simp: decimal_number_def)
    show ?thesis
      using unsigned_number_decimal[OF r'(1) assms(2)] True Cons r'(2)
      by (simp add: signed_number_def to_double_minus)
  next
    case False
    then have u: "unsigned_decimal s = Some r" using assms(1) Cons by (simp add: decimal_number_def)
    obtain c' t' where s: "s = c' # t'" and c: "is_digit c'"
      using u by (rule unsigned_decimal_hd)
    have "c \<noteq> CHR ''+''" using is_digit_not[OF c] s Cons by simp
    then show ?thesis
      using unsigned_number_decimal[OF u assms(2)] False Cons
      by (simp add: signed_number_def)
  qed
qed

lemma decimal_number_shape:
  assumes "decimal_number s = Some r"
  obtains c t where "s = c # t" "is_digit c \<or> c = CHR ''-''"
    "\<forall>x \<in> set s. is_digit x \<or> x = CHR ''.'' \<or> x = CHR ''-''" "is_digit (last s)"
proof -
  have u: "\<And>t r'. unsigned_decimal t = Some r' \<Longrightarrow>
     t \<noteq> [] \<and> is_digit (hd t) \<and> is_digit (last t) \<and> (\<forall>x \<in> set t. is_digit x \<or> x = CHR ''.'')"
  proof -
    fix t r' assume a: "unsigned_decimal t = Some r'"
    then show "t \<noteq> [] \<and> is_digit (hd t) \<and> is_digit (last t)
        \<and> (\<forall>x \<in> set t. is_digit x \<or> x = CHR ''.'')"
    proof (cases rule: unsigned_decimal_cases)
      case whole
      then show ?thesis by (cases t) (auto simp: list_all_iff)
    next
      case (fraction ds fs)
      then show ?thesis by (cases ds) (auto simp: list_all_iff)
    qed
  qed
  show ?thesis
  proof (cases s)
    case Nil
    then show ?thesis using assms by (simp add: decimal_number_def)
  next
    case (Cons c t)
    show ?thesis
    proof (cases "c = CHR ''-''")
      case True
      then obtain r' where "unsigned_decimal t = Some r'"
        using assms Cons by (auto simp: decimal_number_def)
      then show ?thesis using u[of t r'] that[of c t] Cons True by auto
    next
      case False
      then have "unsigned_decimal s = Some r" using assms Cons by (simp add: decimal_number_def)
      then show ?thesis using u[of s r] that[of c t] Cons by auto
    qed
  qed
qed

lemma decimal_char_clean:
  assumes "is_digit x \<or> x = CHR ''.'' \<or> x = CHR ''-''"
  shows "\<not> js_whitespace x" and "\<not> line_terminator x" and "x \<noteq> CHR '',''" and "x \<noteq> CHR ''(''"
  using assms by (auto simp: is_digit_def js_whitespace_def line_terminator_def)

lemma parseFloat_decimal:
  assumes "decimal_number s = Some r" and "stops w"
  shows "parseFloat (s @ w) = to_double r"
proof -
  obtain c t where s: "s = c # t" and c: "is_digit c \<or> c = CHR ''-''"
    using assms(1) by (rule decimal_number_shape)
  have "is_digit c \<or> c = CHR ''.'' \<or> c = CHR ''-''" using c by blast
  then have "\<not> js_whitespace c" by (rule decimal_char_clean(1))
  then have "trimStart (s @ w) = s @ w" by (simp add: s trimStart_def)
  then show ?thesis using signed_number_decimal[OF assms] by (simp add: parseFloat_def)
qed

lemma stops_Nil [simp]: "stops []"
  by (simp add: stops_def)

lemma decimal_clean:
  assumes "decimal_number d = Some r"
  shows "trim d = d" and "\<not> in_parentheses d" and "d \<noteq> []"
    and "\<not> list_ex line_terminator d" and "CHR '','' \<notin> set d"
proof -
  obtain c t where s: "d = c # t" and c: "is_digit c \<or> c = CHR ''-''"
    and a: "\<forall>x \<in> set d. is_digit x \<or> x = CHR ''.'' \<or> x = CHR ''-''" and l: "is_digit (last d)"
    using assms by (rule decimal_number_shape)
  have c2: "is_digit c \<or> c = CHR ''.'' \<or> c = CHR ''-''" using c by blast
  have nw: "\<not> js_whitespace c" by (rule decimal_char_clean(1)[OF c2])
  have ne: "d \<noteq> []" using s by simp
  have "\<not> js_whitespace (last d)" using l decimal_char_clean(1)[of "last d"] by blast
  then have "trimEnd (butlast d @ [last d]) = butlast d @ [last d]" by (rule trimEnd_snoc)
  then have "trimEnd d = d" by (simp only: append_butlast_last_id[OF ne])
  then show "trim d = d" using nw by (simp add: trim_def s trimStart_def)
  have "c \<noteq> CHR ''(''" by (rule decimal_char_clean(4)[OF c2])
  then show "\<not> in_parentheses d" by (simp add: in_parentheses_def s)
  show "d \<noteq> []" by (rule ne)
  have "\<And>x. x \<in> set d \<Longrightarrow> \<not> line_terminator x"
    using a decimal_char_clean(2) by blast
  then show "\<not> list_ex line_terminator d" unfolding list_ex_iff by blast
  have "\<And>x. x \<in> set d \<Longrightarrow> x \<noteq> CHR '',''"
    using a decimal_char_clean(3) by blast
  then show "CHR '','' \<notin> set d" by blast
qed

lemma parseNumberSafe_decimal:
  assumes "decimal_number (remove_commas t) = Some r"
  shows "parseNumberSafe (Str t) = to_double r"
proof -
  have "parseFloat (remove_commas t) = to_double r"
    using parseFloat_decimal[OF assms stops_Nil] by simp
  then show ?thesis
    using decimal_clean(1,2,3)[OF assms] by (simp add: parseNumberSafe_def Let_def isNaN_def)
qed

lemma parseNumberSafe_parenthesised:
  assumes "decimal_number (remove_commas t) = Some r"
  shows "parseNumberSafe (Str (''('' @ t @ '')'')) = fneg (to_double r)"
proof -
  define d where "d = remove_commas t"
  have rc: "remove_commas (CHR ''('' # t @ '')'') = CHR ''('' # d @ '')''"
    by (simp add: remove_commas_def d_def)
  have "trimEnd (CHR ''('' # d @ '')'') = CHR ''('' # d @ '')''"
    using trimEnd_snoc[of "CHR '')''" "CHR ''('' # d"] by (simp add: js_whitespace_def)
  then have tr: "trim (CHR ''('' # d @ '')'') = CHR ''('' # d @ '')''"
    by (simp add: trim_def trimStart_def js_whitespace_def)
  have ip: "in_parentheses (CHR ''('' # d @ '')'')"
    using decimal_clean(4)[OF assms] by (simp add: in_parentheses_def d_def)
  have sp: "strip_parentheses (CHR ''('' # d @ '')'') = d"
    by (simp add: strip_parentheses_def)
  have "parseFloat d = to_double r"
    using parseFloat_decimal[OF assms stops_Nil] by (simp add: d_def)
  then show ?thesis
    by (simp add: parseNumberSafe_def Let_def rc tr ip sp isNaN_def)
qed

lemma parseNumberSafe_prefix:
  assumes "decimal_number t = Some r" and "stops (c # u)" and "c \<noteq> CHR '',''"
    and "\<not> js_whitespace c"
  shows "parseNumberSafe (Str (t @ c # u)) = to_double r"
proof -
  define v where "v = trimEnd (remove_commas u)"
  have rc: "remove_commas (t @ c # u) = t @ c # remove_commas u"
    using remove_commas_id[OF decimal_clean(5)[OF assms(1)]] assms(3)
    by (simp add: remove_commas_def)
  obtain c' t' where t: "t = c' # t'" and c': "is_digit c' \<or> c' = CHR ''-''"
    using assms(1) by (rule decimal_number_shape)
  have c2: "is_digit c' \<or> c' = CHR ''.'' \<or> c' = CHR ''-''" using c' by blast
  have nw: "\<not> js_whitespace c'" by (rule decimal_char_clean(1)[OF c2])
  have "trimEnd (c # remove_commas u) = c # v"
    using assms(4) by (simp add: trimEnd_Cons v_def)
  then have "trimEnd (t @ c # remove_commas u) = t @ c # v"
    using trimEnd_append[of "c # remove_commas u" t] by simp
  then have tr: "trim (t @ c # remove_commas u) = t @ c # v"
    using nw by (simp add: trim_def t trimStart_def)
  have "c' \<noteq> CHR ''(''" by (rule decimal_char_clean(4)[OF c2])
  then have ip: "\<not> in_parentheses (t @ c # v)" by (simp add: in_parentheses_def t)
  have st: "stops (c # v)" using assms(2) by (simp add: stops_def)
  have "parseFloat (t @ c # v) = to_double r"
    using parseFloat_decimal[OF assms(1) st] .
  then show ?thesis
    by (simp add: parseNumberSafe_def Let_def rc tr ip isNaN_def)
qed

lemma parseNumberSafe_no_number:
  assumes "\<not> is_digit c" and "c \<notin> {CHR ''+'', CHR ''-'', CHR ''.'', CHR ''('', CHR ''I'', CHR '',''}"
    and "\<not> js_whitespace c"
  shows "parseNumberSafe (Str (c # u)) = Fin 0"
proof -
  define v where "v = trimEnd (remove_commas u)"
  have rc: "remove_commas (c # u) = c # remove_commas u"
    using assms(2) by (simp add: remove_commas_def)
  have tr: "trim (c # remove_commas u) = c # v"
    using assms(3) by (simp add: trim_Cons v_def)
  have ip: "\<not> in_parentheses (c # v)" using assms(2) by (simp add: in_parentheses_def)
  have "unsigned_literal (c # v) = None"
    using assms(1,2) unsigned_literal_eq[of "c # v" "[]" "c # v"] by simp
  then have "parseFloat (c # v) = NaN"
    using assms(2,3)
    by (simp add: parseFloat_def trimStart_def signed_number_def unsigned_number_def
        startsWith_def)
  then show ?thesis
    by (simp add: parseNumberSafe_def Let_def rc tr ip isNaN_def)
qed

lemma double_1234_5: "to_double (2469 / 2) = Fin (2469 / 2)"
  using to_double_certificate[of 10 "2469 / 2" "2469 * 2 ^ 41"]
  by (simp add: pow2_def)

lemma parseNumberSafe_examples:
  "parseNumberSafe (Str ''1,234.50'') = Fin (2469 / 2)"
  "parseNumberSafe (Str ''(500)'') = Fin (- 500)"
  "parseNumberSafe (Str '''') = Fin 0"
  "parseNumberSafe (Str ''abc'') = Fin 0"
  "parseNumberSafe (Str ''12abc'') = Fin 12"
  by (simp_all add: parse_defs double_1234_5 to_double_numeral)

lemma decimal_number_12abc: "decimal_number ''12abc'' = None"
  by (simp add: decimal_number_def unsigned_decimal_def is_digit_def Let_def)

lemma decimal_1234_5: "decimal_number (remove_commas ''1,234.50'') = Some (2469 / 2)"
  by (simp add: decimal_number_def unsigned_decimal_def remove_commas_def is_digit_def
      dec_val_def digit_val_def Let_def)

lemma decimal_12: "decimal_number ''12'' = Some 12"
  by (simp add: decimal_number_def unsigned_decimal_def remove_commas_def is_digit_def
      dec_val_def digit_val_def Let_def)

text \<open>
  The scanner of \<open>parseFloat\<close> against the literals of the language specification: what the
  scanner reads is a literal, with the value of that literal, and no longer leading part of
  the string is one.
\<close>

lemma digit_not_letter:
  "is_digit c \<Longrightarrow> \<not> exponent_letter c \<and> c \<noteq> CHR ''.'' \<and> c \<noteq> CHR ''+'' \<and> c \<noteq> CHR ''-''
     \<and> c \<noteq> CHR ''I''"
  by (auto simp: is_digit_def exponent_letter_def)

lemma letter_not_digit: "exponent_letter c \<Longrightarrow> \<not> is_digit c \<and> c \<noteq> CHR ''.'' \<and> c \<noteq> CHR ''I''"
  by (auto simp: is_digit_def exponent_letter_def)

lemma takeWhile_digits_append:
  "list_all is_digit ds \<Longrightarrow> takeWhile is_digit (ds @ w) = ds @ takeWhile is_digit w"
  by (simp add: list_all_iff takeWhile_append2)

lemma dropWhile_digits_append:
  "list_all is_digit ds \<Longrightarrow> dropWhile is_digit (ds @ w) = dropWhile is_digit w"
  by (simp add: list_all_iff dropWhile_append2)

lemma list_all_takeWhile: "list_all P (takeWhile P xs)"
  by (induction xs) simp_all

lemma digits_takeWhile: "takeWhile is_digit t \<noteq> [] \<Longrightarrow> digits (takeWhile is_digit t)"
  by (simp add: digits_def list_all_takeWhile)

lemma takeWhile_digits_stop:
  "list_all is_digit ds \<Longrightarrow> y = [] \<or> \<not> is_digit (hd y) \<Longrightarrow>
     takeWhile is_digit (ds @ y) = ds \<and> dropWhile is_digit (ds @ y) = y"
  by (cases y) (simp_all add: takeWhile_digits_append dropWhile_digits_append list_all_iff)

lemma exponent_part_unfold:
  "exponent_part [] = (0, [])"
  "\<not> exponent_letter c \<Longrightarrow> exponent_part (c # t) = (0, c # t)"
  "exponent_letter c \<Longrightarrow> exponent_part [c] = (0, [c])"
  "exponent_letter c \<Longrightarrow> exponent_part (c # CHR ''+'' # u) =
     (if takeWhile is_digit u = [] then (0, c # CHR ''+'' # u)
      else (int (dec_val (takeWhile is_digit u)), dropWhile is_digit u))"
  "exponent_letter c \<Longrightarrow> exponent_part (c # CHR ''-'' # u) =
     (if takeWhile is_digit u = [] then (0, c # CHR ''-'' # u)
      else (- int (dec_val (takeWhile is_digit u)), dropWhile is_digit u))"
  "exponent_letter c \<Longrightarrow> d \<noteq> CHR ''+'' \<Longrightarrow> d \<noteq> CHR ''-'' \<Longrightarrow> exponent_part (c # d # u) =
     (if takeWhile is_digit (d # u) = [] then (0, c # d # u)
      else (int (dec_val (takeWhile is_digit (d # u))), dropWhile is_digit (d # u)))"
  by (simp_all add: exponent_part_def exponent_letter_def)

lemma length_exponent_part: "length (snd (exponent_part r)) \<le> length r"
proof (cases r)
  case Nil
  then show ?thesis by (simp add: exponent_part_unfold)
next
  case (Cons c t)
  have l: "length (dropWhile is_digit v) \<le> length v" for v
    by (rule length_dropWhile_le)
  show ?thesis
  proof (cases "exponent_letter c")
    case False
    then show ?thesis by (simp add: Cons exponent_part_unfold)
  next
    case True
    show ?thesis
    proof (cases t)
      case Nil
      then show ?thesis using True by (simp add: Cons exponent_part_unfold)
    next
      case (Cons d u)
      consider "d = CHR ''+''" | "d = CHR ''-''" | "d \<noteq> CHR ''+''" "d \<noteq> CHR ''-''" by blast
      then show ?thesis
      proof cases
        case 1
        then show ?thesis using True l[of u] by (simp add: \<open>r = c # t\<close> Cons exponent_part_unfold)
      next
        case 2
        then show ?thesis using True l[of u] by (simp add: \<open>r = c # t\<close> Cons exponent_part_unfold)
      next
        case 3
        then show ?thesis using True l[of "d # u"]
          by (simp add: \<open>r = c # t\<close> Cons exponent_part_unfold(6) del: dropWhile.simps takeWhile.simps)
      qed
    qed
  qed
qed

lemma is_exponent_intro:
  "exponent_letter c \<Longrightarrow> digits d \<Longrightarrow> is_exponent (c # CHR ''+'' # d)"
  "exponent_letter c \<Longrightarrow> digits d \<Longrightarrow> is_exponent (c # CHR ''-'' # d)"
  "exponent_letter c \<Longrightarrow> digits d \<Longrightarrow> is_exponent (c # d)"
proof -
  show "exponent_letter c \<Longrightarrow> digits d \<Longrightarrow> is_exponent (c # CHR ''+'' # d)"
    by (simp add: is_exponent_def)
  show "exponent_letter c \<Longrightarrow> digits d \<Longrightarrow> is_exponent (c # CHR ''-'' # d)"
    by (simp add: is_exponent_def)
  show "exponent_letter c \<Longrightarrow> digits d \<Longrightarrow> is_exponent (c # d)"
    using digit_not_letter[of "hd d"]
    by (cases d) (auto simp: is_exponent_def digits_def)
qed

lemma exponent_value_simps:
  "exponent_value [] = 0"
  "exponent_value (c # CHR ''+'' # d) = int (dec_val d)"
  "exponent_value (c # CHR ''-'' # d) = - int (dec_val d)"
  "digits d \<Longrightarrow> exponent_value (c # d) = int (dec_val d)"
proof -
  show "digits d \<Longrightarrow> exponent_value (c # d) = int (dec_val d)"
    using digit_not_letter[of "hd d"]
    by (cases d) (auto simp: exponent_value_def digits_def)
qed (simp_all add: exponent_value_def)

lemma is_exponent_cases:
  assumes "is_exponent x"
  obtains (plain) c d where "x = c # d" "exponent_letter c" "digits d"
  | (plus) c d where "x = c # CHR ''+'' # d" "exponent_letter c" "digits d"
  | (minus) c d where "x = c # CHR ''-'' # d" "exponent_letter c" "digits d"
proof -
  obtain c r where x: "x = c # r" and c: "exponent_letter c"
    using assms by (cases x) (simp_all add: is_exponent_def)
  obtain s ds where r: "r = s # ds"
    using assms x by (cases r) (simp_all add: is_exponent_def)
  consider "s = CHR ''+''" | "s = CHR ''-''" | "s \<noteq> CHR ''+''" "s \<noteq> CHR ''-''" by blast
  then show thesis
  proof cases
    case 1
    then have "digits ds" using assms x r by (simp add: is_exponent_def)
    then show thesis using plus[of c ds] x r c 1 by simp
  next
    case 2
    then have "digits ds" using assms x r by (simp add: is_exponent_def)
    then show thesis using minus[of c ds] x r c 2 by simp
  next
    case 3
    then have "digits r" using assms x r by (simp add: is_exponent_def)
    then show thesis using plain[of c r] x c by simp
  qed
qed

lemma exponent_part_sound:
  "\<exists>x. r = x @ snd (exponent_part r) \<and> (x = [] \<or> is_exponent x)
        \<and> exponent_value x = fst (exponent_part r)"
proof -
  have none: "exponent_part r = (0, r) \<Longrightarrow> ?thesis"
  proof -
    assume "exponent_part r = (0, r)"
    then have "r = [] @ snd (exponent_part r) \<and> ([] = [] \<or> is_exponent [])
        \<and> exponent_value [] = fst (exponent_part r)"
      by (simp add: exponent_value_simps)
    then show ?thesis by blast
  qed
  show ?thesis
  proof (cases r)
    case Nil
    then show ?thesis using none by (simp add: exponent_part_unfold)
  next
    case (Cons c t)
    show ?thesis
    proof (cases "exponent_letter c")
      case False
      then show ?thesis using none by (simp add: Cons exponent_part_unfold)
    next
      case True
      show ?thesis
      proof (cases t)
        case Nil
        then show ?thesis using none True by (simp add: Cons exponent_part_unfold)
      next
        case (Cons d u)
        note r = \<open>r = c # t\<close> Cons
        consider "d = CHR ''+''" | "d = CHR ''-''" | "d \<noteq> CHR ''+''" "d \<noteq> CHR ''-''" by blast
        then show ?thesis
        proof cases
          case 1
          show ?thesis
          proof (cases "takeWhile is_digit u = []")
            case e: True
            then show ?thesis using none True 1 by (simp add: r exponent_part_unfold)
          next
            case e: False
            define x where "x = c # CHR ''+'' # takeWhile is_digit u"
            have p: "exponent_part r = (int (dec_val (takeWhile is_digit u)), dropWhile is_digit u)"
              using True 1 e by (simp add: r exponent_part_unfold)
            have "r = x @ snd (exponent_part r)" using p by (simp add: x_def r 1)
            moreover have "is_exponent x"
              unfolding x_def by (rule is_exponent_intro(1)[OF True digits_takeWhile[OF e]])
            moreover have "exponent_value x = fst (exponent_part r)"
              by (simp add: p x_def exponent_value_simps)
            ultimately show ?thesis by blast
          qed
        next
          case 2
          show ?thesis
          proof (cases "takeWhile is_digit u = []")
            case e: True
            then show ?thesis using none True 2 by (simp add: r exponent_part_unfold)
          next
            case e: False
            define x where "x = c # CHR ''-'' # takeWhile is_digit u"
            have p: "exponent_part r = (- int (dec_val (takeWhile is_digit u)), dropWhile is_digit u)"
              using True 2 e by (simp add: r exponent_part_unfold)
            have "r = x @ snd (exponent_part r)" using p by (simp add: x_def r 2)
            moreover have "is_exponent x"
              unfolding x_def by (rule is_exponent_intro(2)[OF True digits_takeWhile[OF e]])
            moreover have "exponent_value x = fst (exponent_part r)"
              by (simp add: p x_def exponent_value_simps)
            ultimately show ?thesis by blast
          qed
        next
          case 3
          show ?thesis
          proof (cases "takeWhile is_digit t = []")
            case e: True
            then have "exponent_part r = (0, r)"
              using True 3 exponent_part_unfold(6)[of c d u] by (simp add: r)
            then show ?thesis by (rule none)
          next
            case e: False
            define x where "x = c # takeWhile is_digit t"
            have p: "exponent_part r = (int (dec_val (takeWhile is_digit t)), dropWhile is_digit t)"
              using True 3 e exponent_part_unfold(6)[of c d u] by (simp add: r)
            have "r = x @ snd (exponent_part r)" using p by (simp add: x_def \<open>r = c # t\<close>)
            moreover have "is_exponent x"
              unfolding x_def by (rule is_exponent_intro(3)[OF True digits_takeWhile[OF e]])
            moreover have "exponent_value x = fst (exponent_part r)"
              by (simp add: p x_def exponent_value_simps(4)[OF digits_takeWhile[OF e]])
            ultimately show ?thesis by blast
          qed
        qed
      qed
    qed
  qed
qed

lemma exponent_part_complete:
  assumes "is_exponent x"
  shows "length (snd (exponent_part (x @ w))) \<le> length w"
proof -
  have l: "length (dropWhile is_digit w) \<le> length w" by (rule length_dropWhile_le)
  from assms show ?thesis
  proof (cases rule: is_exponent_cases)
    case (plain c d)
    then obtain d0 d' where d: "d = d0 # d'" and d0: "is_digit d0"
      by (cases d) (auto simp: digits_def)
    have a: "list_all is_digit d" using plain(3) by (simp add: digits_def)
    have s: "d0 \<noteq> CHR ''+''" "d0 \<noteq> CHR ''-''" using digit_not_letter[OF d0] by simp_all
    have t: "takeWhile is_digit (d @ w) = d @ takeWhile is_digit w"
      "dropWhile is_digit (d @ w) = dropWhile is_digit w"
      using a by (simp_all add: takeWhile_digits_append dropWhile_digits_append)
    have "exponent_part (c # d0 # (d' @ w)) =
        (int (dec_val (takeWhile is_digit (d0 # (d' @ w)))), dropWhile is_digit (d0 # (d' @ w)))"
      using exponent_part_unfold(6)[OF plain(2) s, of "d' @ w"] d0 by simp
    then have "snd (exponent_part (x @ w)) = dropWhile is_digit w"
      using t by (simp add: plain(1) d)
    then show ?thesis using l by simp
  next
    case (plus c d)
    have a: "list_all is_digit d" "d \<noteq> []" using plus(3) by (simp_all add: digits_def)
    have "snd (exponent_part (x @ w)) = dropWhile is_digit w"
      using a by (simp add: plus(1) exponent_part_unfold(4)[OF plus(2)] takeWhile_digits_append
          dropWhile_digits_append)
    then show ?thesis using l by simp
  next
    case (minus c d)
    have a: "list_all is_digit d" "d \<noteq> []" using minus(3) by (simp_all add: digits_def)
    have "snd (exponent_part (x @ w)) = dropWhile is_digit w"
      using a by (simp add: minus(1) exponent_part_unfold(5)[OF minus(2)] takeWhile_digits_append
          dropWhile_digits_append)
    then show ?thesis using l by simp
  qed
qed

lemma is_mantissa_cases:
  assumes "is_mantissa m"
  obtains (whole) "m \<noteq> []" "list_all is_digit m"
  | (point) i f where "m = i @ CHR ''.'' # f" "list_all is_digit i" "list_all is_digit f"
      "i \<noteq> [] \<or> f \<noteq> []"
proof (cases "dropWhile is_digit m")
  case Nil
  have "m \<noteq> []" using assms by (simp add: is_mantissa_def Nil)
  moreover have "list_all is_digit m"
    using Nil by (simp add: list_all_iff dropWhile_eq_Nil_conv)
  ultimately show thesis by (rule whole)
next
  case (Cons c f)
  have c: "c = CHR ''.''" and f: "list_all is_digit f"
    and n: "takeWhile is_digit m \<noteq> [] \<or> f \<noteq> []"
    using assms Cons by (simp_all add: is_mantissa_def)
  have "m = takeWhile is_digit m @ CHR ''.'' # f"
    using takeWhile_dropWhile_id[of is_digit m] Cons c by simp
  then show thesis
    using point[of "takeWhile is_digit m" f] f n list_all_takeWhile[of is_digit m] by blast
qed

lemma is_mantissa_whole: "m \<noteq> [] \<Longrightarrow> list_all is_digit m \<Longrightarrow> is_mantissa m"
  by (simp add: is_mantissa_def list_all_iff dropWhile_eq_Nil_conv[THEN iffD2])

lemma mantissa_value_whole: "list_all is_digit m \<Longrightarrow> mantissa_value m = of_nat (dec_val m)"
  by (simp add: mantissa_value_def list_all_iff dropWhile_eq_Nil_conv[THEN iffD2]
      takeWhile_eq_all_conv[THEN iffD2] dec_val_def)

lemma point_split:
  "list_all is_digit i \<Longrightarrow>
     takeWhile is_digit (i @ CHR ''.'' # f) = i \<and> dropWhile is_digit (i @ CHR ''.'' # f) = CHR ''.'' # f"
  using takeWhile_digits_stop[of i "CHR ''.'' # f"] by simp

lemma is_mantissa_point:
  "list_all is_digit i \<Longrightarrow> list_all is_digit f \<Longrightarrow> i \<noteq> [] \<or> f \<noteq> [] \<Longrightarrow>
     is_mantissa (i @ CHR ''.'' # f)"
  by (simp add: is_mantissa_def point_split)

lemma mantissa_value_point:
  "list_all is_digit i \<Longrightarrow>
     mantissa_value (i @ CHR ''.'' # f) = of_nat (dec_val i) + of_nat (dec_val f) / 10 ^ length f"
  by (simp add: mantissa_value_def point_split)

lemma mantissa_chars:
  assumes "is_mantissa m"
  shows "m \<noteq> []" and "is_digit (hd m) \<or> hd m = CHR ''.''"
    and "\<forall>c \<in> set m. \<not> exponent_letter c"
proof -
  have "m \<noteq> [] \<and> (is_digit (hd m) \<or> hd m = CHR ''.'') \<and> (\<forall>c \<in> set m. \<not> exponent_letter c)"
    using assms
  proof (cases rule: is_mantissa_cases)
    case whole
    then show ?thesis
      using digit_not_letter by (cases m) (auto simp: list_all_iff)
  next
    case (point i f)
    have "\<forall>c \<in> set m. is_digit c \<or> c = CHR ''.''"
      using point by (auto simp: list_all_iff)
    then have "\<forall>c \<in> set m. \<not> exponent_letter c"
      using digit_not_letter by (auto simp: exponent_letter_def)
    moreover have "is_digit (hd m) \<or> hd m = CHR ''.''"
      using point by (cases i) (auto simp: list_all_iff)
    ultimately show ?thesis using point(1) by simp
  qed
  then show "m \<noteq> []" and "is_digit (hd m) \<or> hd m = CHR ''.''"
    and "\<forall>c \<in> set m. \<not> exponent_letter c"
    by blast+
qed

lemma exponent_starts:
  "is_exponent x \<Longrightarrow> x \<noteq> [] \<and> exponent_letter (hd x)"
  by (cases x) (simp_all add: is_exponent_def)

lemma letter_split:
  assumes "is_mantissa m" and "x = [] \<or> is_exponent x"
  shows "takeWhile (\<lambda>c. \<not> exponent_letter c) (m @ x) = m"
    and "dropWhile (\<lambda>c. \<not> exponent_letter c) (m @ x) = x"
proof -
  have a: "\<And>c. c \<in> set m \<Longrightarrow> \<not> exponent_letter c" using mantissa_chars(3)[OF assms(1)] by blast
  have "takeWhile (\<lambda>c. \<not> exponent_letter c) x = []"
    "dropWhile (\<lambda>c. \<not> exponent_letter c) x = x"
    using assms(2) exponent_starts[of x] by (cases x; auto)+
  then show "takeWhile (\<lambda>c. \<not> exponent_letter c) (m @ x) = m"
    and "dropWhile (\<lambda>c. \<not> exponent_letter c) (m @ x) = x"
    using a by (simp_all add: takeWhile_append2 dropWhile_append2)
qed

lemma not_Infinity:
  assumes "is_mantissa m"
  shows "m @ y \<noteq> ''Infinity''" and "\<not> startsWith (m @ y) ''Infinity''"
proof -
  obtain c t where m: "m = c # t" using mantissa_chars(1)[OF assms] by (cases m) auto
  have "is_digit c \<or> c = CHR ''.''" using mantissa_chars(2)[OF assms] m by simp
  then have "c \<noteq> CHR ''I''" using digit_not_letter[of c] by auto
  then show "m @ y \<noteq> ''Infinity''" and "\<not> startsWith (m @ y) ''Infinity''"
    by (simp_all add: m startsWith_def)
qed

lemma is_unsigned_literal_intro:
  assumes "is_mantissa m" and "x = [] \<or> is_exponent x"
  shows "is_unsigned_literal (m @ x)"
    and "unsigned_value (m @ x) = to_double (mantissa_value m * pow10 (exponent_value x))"
  using assms not_Infinity(1)[OF assms(1), of x]
  by (simp_all add: is_unsigned_literal_def unsigned_value_def Let_def letter_split[OF assms])

lemma is_unsigned_literal_cases:
  assumes "is_unsigned_literal u"
  obtains (inf) "u = ''Infinity''"
  | (fin) m x where "u = m @ x" "is_mantissa m" "x = [] \<or> is_exponent x"
proof (cases "u = ''Infinity''")
  case True
  then show thesis by (rule inf)
next
  case False
  define m where "m = takeWhile (\<lambda>c. \<not> exponent_letter c) u"
  define x where "x = dropWhile (\<lambda>c. \<not> exponent_letter c) u"
  have "u = m @ x" by (simp add: m_def x_def)
  moreover have "is_mantissa m" "x = [] \<or> is_exponent x"
    using assms False by (simp_all add: is_unsigned_literal_def Let_def m_def x_def)
  ultimately show thesis by (rule fin)
qed

lemma unsigned_literal_complete:
  assumes "is_mantissa m" and "x = [] \<or> is_exponent x"
  shows "\<exists>v rest. unsigned_literal (m @ x @ w) = Some (v, rest) \<and> length rest \<le> length w"
proof -
  have l: "length (dropWhile is_digit w) \<le> length w" by (rule length_dropWhile_le)
  have xs: "x @ w = w \<or> (x @ w \<noteq> [] \<and> \<not> is_digit (hd (x @ w)) \<and> hd (x @ w) \<noteq> CHR ''.'')"
    using assms(2) exponent_starts[of x] letter_not_digit[of "hd x"] by (cases x) auto
  from assms(1) show ?thesis
  proof (cases rule: is_mantissa_cases)
    case whole
    show ?thesis
    proof (cases "x = []")
      case True
      define r where "r = dropWhile is_digit w"
      have t: "takeWhile is_digit (m @ x @ w) = m @ takeWhile is_digit w"
        "dropWhile is_digit (m @ x @ w) = r"
        using whole(2) True by (simp_all add: takeWhile_digits_append dropWhile_digits_append r_def)
      have n: "m @ takeWhile is_digit w \<noteq> []" using whole(1) by simp
      show ?thesis
      proof (cases r)
        case Nil
        then show ?thesis using unsigned_literal_eq[OF t] n by simp
      next
        case (Cons c t')
        have lr: "length r \<le> length w" using l by (simp add: r_def)
        have "length (snd (exponent_part (dropWhile is_digit t'))) \<le> length t'"
          using length_exponent_part[of "dropWhile is_digit t'"] length_dropWhile_le[of is_digit t']
          by linarith
        moreover have "length (snd (exponent_part r)) \<le> length r" by (rule length_exponent_part)
        ultimately show ?thesis
          using unsigned_literal_eq[OF t] n lr Cons by (cases "c = CHR ''.''") auto
      qed
    next
      case False
      then have e: "is_exponent x" using assms(2) by blast
      obtain c t' where x: "x = c # t'" and c: "exponent_letter c"
        using exponent_starts[OF e] by (cases x) auto
      have nd: "\<not> is_digit c" "c \<noteq> CHR ''.''" using letter_not_digit[OF c] by simp_all
      have t: "takeWhile is_digit (m @ x @ w) = m" "dropWhile is_digit (m @ x @ w) = x @ w"
        using takeWhile_digits_stop[OF whole(2), of "x @ w"] nd by (simp_all add: x)
      have "unsigned_literal (m @ x @ w) =
          Some (of_nat (dec_val m) * pow10 (fst (exponent_part (x @ w))), snd (exponent_part (x @ w)))"
        using unsigned_literal_eq[OF t] whole(1) nd by (simp add: x)
      then show ?thesis using exponent_part_complete[OF e, of w] by simp
    qed
  next
    case (point i f)
    show ?thesis
    proof (cases "x = []")
      case True
      have t: "takeWhile is_digit (m @ x @ w) = i"
        "dropWhile is_digit (m @ x @ w) = CHR ''.'' # f @ w"
        using point_split[OF point(2), of "f @ w"] by (simp_all add: point(1) True)
      have f: "takeWhile is_digit (f @ w) = f @ takeWhile is_digit w"
        "dropWhile is_digit (f @ w) = dropWhile is_digit w"
        using point(3) by (simp_all add: takeWhile_digits_append dropWhile_digits_append)
      have "unsigned_literal (m @ x @ w) =
          Some ((of_nat (dec_val i) + of_nat (dec_val (f @ takeWhile is_digit w))
                   / 10 ^ length (f @ takeWhile is_digit w))
                  * pow10 (fst (exponent_part (dropWhile is_digit w))),
                snd (exponent_part (dropWhile is_digit w)))"
        using unsigned_literal_eq[OF t] point(4) by (auto simp: f)
      moreover have "length (snd (exponent_part (dropWhile is_digit w))) \<le> length w"
        using length_exponent_part[of "dropWhile is_digit w"] l by linarith
      ultimately show ?thesis by simp
    next
      case False
      then have e: "is_exponent x" using assms(2) by blast
      obtain c t' where x: "x = c # t'" and c: "exponent_letter c"
        using exponent_starts[OF e] by (cases x) auto
      have nd: "\<not> is_digit c" using letter_not_digit[OF c] by simp
      have t: "takeWhile is_digit (m @ x @ w) = i"
        "dropWhile is_digit (m @ x @ w) = CHR ''.'' # f @ x @ w"
        using point_split[OF point(2), of "f @ x @ w"] by (simp_all add: point(1))
      have f: "takeWhile is_digit (f @ x @ w) = f" "dropWhile is_digit (f @ x @ w) = x @ w"
        using takeWhile_digits_stop[OF point(3), of "x @ w"] nd by (simp_all add: x)
      have "unsigned_literal (m @ x @ w) =
          Some ((of_nat (dec_val i) + of_nat (dec_val f) / 10 ^ length f)
                  * pow10 (fst (exponent_part (x @ w))),
                snd (exponent_part (x @ w)))"
        using unsigned_literal_eq[OF t] point(4) by (simp add: f)
      then show ?thesis using exponent_part_complete[OF e, of w] by simp
    qed
  qed
qed

lemma unsigned_number_complete:
  assumes "is_unsigned_literal u"
  shows "\<exists>v rest. unsigned_number (u @ w) = Some (v, rest) \<and> length rest \<le> length w"
  using assms
proof (cases rule: is_unsigned_literal_cases)
  case inf
  then show ?thesis by (simp add: unsigned_number_def startsWith_def)
next
  case (fin m x)
  obtain v rest where "unsigned_literal (m @ x @ w) = Some (v, rest)" "length rest \<le> length w"
    using unsigned_literal_complete[OF fin(2,3), of w] by blast
  then show ?thesis
    using not_Infinity(2)[OF fin(2), of "x @ w"] by (simp add: unsigned_number_def fin(1))
qed

lemma is_unsigned_literal_nonempty: "is_unsigned_literal u \<Longrightarrow> u \<noteq> []"
  by (erule is_unsigned_literal_cases) (use mantissa_chars(1) in auto)

lemma is_unsigned_literal_hd:
  "is_unsigned_literal u \<Longrightarrow> hd u \<noteq> CHR ''+'' \<and> hd u \<noteq> CHR ''-''"
proof (erule is_unsigned_literal_cases)
  assume "u = ''Infinity''"
  then show ?thesis by simp
next
  fix m x assume u: "u = m @ x" and m: "is_mantissa m"
  have "hd u = hd m" using mantissa_chars(1)[OF m] by (simp add: u)
  then show ?thesis using mantissa_chars(2)[OF m] digit_not_letter[of "hd m"] by auto
qed

lemma signed_number_complete:
  assumes "is_literal p"
  shows "\<exists>v rest. signed_number (p @ w) = Some (v, rest) \<and> length rest \<le> length w"
proof -
  obtain c u where p: "p = c # u" using assms by (cases p) (simp_all add: is_literal_def)
  consider (minus) "c = CHR ''-''" | (plus) "c = CHR ''+''"
    | (none) "c \<noteq> CHR ''-''" "c \<noteq> CHR ''+''" by blast
  then show ?thesis
  proof cases
    case minus
    then have "is_unsigned_literal u" using assms p by (simp add: is_literal_def)
    then obtain v rest where "unsigned_number (u @ w) = Some (v, rest)" "length rest \<le> length w"
      using unsigned_number_complete by blast
    then show ?thesis using minus by (simp add: signed_number_def p)
  next
    case plus
    then have "is_unsigned_literal u" using assms p by (simp add: is_literal_def)
    then obtain v rest where "unsigned_number (u @ w) = Some (v, rest)" "length rest \<le> length w"
      using unsigned_number_complete by blast
    then show ?thesis using plus by (simp add: signed_number_def p)
  next
    case none
    then have "is_unsigned_literal p" using assms p by (simp add: is_literal_def)
    then obtain v rest where "unsigned_number (p @ w) = Some (v, rest)" "length rest \<le> length w"
      using unsigned_number_complete by blast
    then show ?thesis using none by (simp add: signed_number_def p)
  qed
qed

lemma pow10_0 [simp]: "pow10 0 = 1"
  by (simp add: pow10_def)

lemma unsigned_literal_sound:
  assumes "unsigned_literal s = Some (v, rest)"
  shows "\<exists>c. s = c @ rest \<and> is_unsigned_literal c \<and> unsigned_value c = to_double v"
proof -
  define ds where "ds = takeWhile is_digit s"
  define r where "r = dropWhile is_digit s"
  have s: "s = ds @ r" by (simp add: ds_def r_def)
  have dd: "list_all is_digit ds" by (simp add: ds_def list_all_takeWhile)
  note u = unsigned_literal_eq[OF ds_def[symmetric] r_def[symmetric]]
  have fin: "\<exists>c. s = c @ rest \<and> is_unsigned_literal c \<and> unsigned_value c = to_double v"
    if "is_mantissa m" and "x = [] \<or> is_exponent x" and "s = (m @ x) @ rest"
      and "v = mantissa_value m * pow10 (exponent_value x)" for m x
    using is_unsigned_literal_intro[OF that(1,2)] that(3,4) by blast
  show ?thesis
  proof (cases r)
    case Nil
    then have n: "ds \<noteq> []" and v: "v = of_nat (dec_val ds)" and e: "rest = []"
      using u assms by (auto split: if_splits)
    show ?thesis
      using fin[of ds "[]"] is_mantissa_whole[OF n dd] mantissa_value_whole[OF dd] s Nil v e
      by (simp add: exponent_value_simps)
  next
    case (Cons c t)
    show ?thesis
    proof (cases "c = CHR ''.''")
      case True
      define fs where "fs = takeWhile is_digit t"
      define r' where "r' = dropWhile is_digit t"
      have t: "t = fs @ r'" by (simp add: fs_def r'_def)
      have ff: "list_all is_digit fs" by (simp add: fs_def list_all_takeWhile)
      have n: "ds \<noteq> [] \<or> fs \<noteq> []"
        and v: "v = (of_nat (dec_val ds) + of_nat (dec_val fs) / 10 ^ length fs)
                      * pow10 (fst (exponent_part r'))"
        and e: "rest = snd (exponent_part r')"
        using u assms Cons True by (auto simp: fs_def r'_def split: if_splits)
      obtain x where x: "r' = x @ snd (exponent_part r')" "x = [] \<or> is_exponent x"
        "exponent_value x = fst (exponent_part r')"
        using exponent_part_sound[of r'] by blast
      have "s = ((ds @ CHR ''.'' # fs) @ x) @ rest"
        using s Cons True t x(1) e by simp
      then show ?thesis
        using fin[of "ds @ CHR ''.'' # fs" x] is_mantissa_point[OF dd ff n]
          mantissa_value_point[OF dd, of fs] x(2,3) v
        by simp
    next
      case False
      have n: "ds \<noteq> []" and v: "v = of_nat (dec_val ds) * pow10 (fst (exponent_part r))"
        and e: "rest = snd (exponent_part r)"
        using u assms Cons False by (auto split: if_splits)
      obtain x where x: "r = x @ snd (exponent_part r)" "x = [] \<or> is_exponent x"
        "exponent_value x = fst (exponent_part r)"
        using exponent_part_sound[of r] by blast
      have "s = (ds @ x) @ rest" using s x(1) e by simp
      then show ?thesis
        using fin[of ds x] is_mantissa_whole[OF n dd] mantissa_value_whole[OF dd] x(2,3) v
        by simp
    qed
  qed
qed

lemma unsigned_number_sound:
  assumes "unsigned_number s = Some (v, rest)"
  shows "\<exists>c. s = c @ rest \<and> is_unsigned_literal c \<and> unsigned_value c = v"
proof (cases "startsWith s ''Infinity''")
  case True
  have e8: "length ''Infinity'' = 8" by code_simp
  have "take (length ''Infinity'') s = ''Infinity''" using True by (simp only: startsWith_def)
  then have "take 8 s = ''Infinity''" by (simp only: e8)
  then have "s = ''Infinity'' @ drop 8 s" using append_take_drop_id[of 8 s] by simp
  moreover have "v = PInf" "rest = drop 8 s"
    using assms True by (simp_all add: unsigned_number_def)
  moreover have "is_unsigned_literal ''Infinity''" "unsigned_value ''Infinity'' = PInf"
    by (simp_all add: is_unsigned_literal_def unsigned_value_def)
  ultimately show ?thesis by metis
next
  case False
  then obtain r where "unsigned_literal s = Some (r, rest)" "v = to_double r"
    using assms by (auto simp: unsigned_number_def split: option.splits)
  then show ?thesis using unsigned_literal_sound[of s r rest] by auto
qed

lemma signed_number_sound:
  assumes "signed_number s = Some (v, rest)"
  shows "\<exists>c. s = c @ rest \<and> is_literal c \<and> literal_value c = v"
proof -
  obtain c t where s: "s = c # t" using assms by (cases s) (simp_all add: signed_number_def)
  consider (minus) "c = CHR ''-''" | (plus) "c = CHR ''+''"
    | (none) "c \<noteq> CHR ''-''" "c \<noteq> CHR ''+''" by blast
  then show ?thesis
  proof cases
    case minus
    then obtain v' where "unsigned_number t = Some (v', rest)" "v = fneg v'"
      using assms s by (auto simp: signed_number_def split: option.splits)
    then obtain c' where c': "t = c' @ rest" "is_unsigned_literal c'" "unsigned_value c' = v'"
      using unsigned_number_sound by blast
    have "s = (c # c') @ rest" "is_literal (c # c')" "literal_value (c # c') = v"
      using c' minus \<open>v = fneg v'\<close> by (simp_all add: s is_literal_def literal_value_def)
    then show ?thesis by blast
  next
    case plus
    then have "unsigned_number t = Some (v, rest)"
      using assms s by (auto simp: signed_number_def split: option.splits)
    then obtain c' where c': "t = c' @ rest" "is_unsigned_literal c'" "unsigned_value c' = v"
      using unsigned_number_sound by blast
    have "s = (c # c') @ rest" "is_literal (c # c')" "literal_value (c # c') = v"
      using c' plus by (simp_all add: s is_literal_def literal_value_def)
    then show ?thesis by blast
  next
    case none
    then have "unsigned_number s = Some (v, rest)"
      using assms s by (auto simp: signed_number_def split: option.splits)
    then obtain c' where c': "s = c' @ rest" "is_unsigned_literal c'" "unsigned_value c' = v"
      using unsigned_number_sound by blast
    obtain t' where t': "c' = c # t'"
      using is_unsigned_literal_nonempty[OF c'(2)] c'(1) s by (cases c') auto
    have "is_literal c'" "literal_value c' = v"
      using c'(2,3) none by (simp_all add: t' is_literal_def literal_value_def)
    then show ?thesis using c'(1) by blast
  qed
qed

lemma longest_literal_parse:
  assumes "longest_literal p w"
  shows "signed_number (p @ w) = Some (literal_value p, w)"
proof -
  have p: "is_literal p" and m: "\<And>k. 1 \<le> k \<Longrightarrow> k \<le> length w \<Longrightarrow> \<not> is_literal (p @ take k w)"
    using assms by (simp_all add: longest_literal_def)
  obtain v rest where r: "signed_number (p @ w) = Some (v, rest)" and l: "length rest \<le> length w"
    using signed_number_complete[OF p, of w] by blast
  obtain c where c: "p @ w = c @ rest" "is_literal c" "literal_value c = v"
    using signed_number_sound[OF r] by blast
  define k where "k = length w - length rest"
  have lc: "length c = length p + k"
    using arg_cong[OF c(1), of length] l by (simp add: k_def)
  have "c = take (length p + k) (p @ w)" using c(1) lc by (metis append_eq_conv_conj)
  then have ck: "c = p @ take k w" by simp
  have "k = 0"
  proof (rule ccontr)
    assume "k \<noteq> 0"
    then have "1 \<le> k" "k \<le> length w" by (simp_all add: k_def)
    then show False using m[of k] c(2) ck by simp
  qed
  then have "c = p" using ck by simp
  then show ?thesis using r c by simp
qed

lemma no_literal_parse:
  assumes "no_literal u"
  shows "signed_number u = None"
proof (rule ccontr)
  assume "signed_number u \<noteq> None"
  then obtain v rest where "signed_number u = Some (v, rest)" by auto
  then obtain c where c: "u = c @ rest" "is_literal c" using signed_number_sound by blast
  have t: "take (length c) u = c" and l: "length c \<le> length u" using c(1) by simp_all
  have "\<forall>k \<in> {0..length u}. \<not> is_literal (take k u)"
    using assms by (simp only: no_literal_def)
  moreover have "length c \<in> {0..length u}" using l by simp
  ultimately have "\<not> is_literal (take (length c) u)" by (rule bspec)
  then show False using c(2) by (simp add: t)
qed

lemma literal_value_not_NaN: "is_literal p \<Longrightarrow> literal_value p \<noteq> NaN"
  by (cases p) (auto simp: is_literal_def literal_value_def unsigned_value_def)

lemma literal_cases: "no_literal u \<or> (\<exists>p w. u = p @ w \<and> longest_literal p w)"
proof (cases "no_literal u")
  case True
  then show ?thesis by blast
next
  case False
  then obtain k where k: "is_literal (take k u)" by (auto simp: no_literal_def)
  obtain v rest where r: "signed_number u = Some (v, rest)"
    using signed_number_complete[OF k, of "drop k u"] by auto
  then obtain c where c: "u = c @ rest" "is_literal c" using signed_number_sound by blast
  have "\<not> is_literal (c @ take k rest)" if "1 \<le> k" "k \<le> length rest" for k
  proof
    assume "is_literal (c @ take k rest)"
    then obtain v' rest' where
      "signed_number ((c @ take k rest) @ drop k rest) = Some (v', rest')"
      "length rest' \<le> length (drop k rest)"
      using signed_number_complete by blast
    then show False using r c(1) that by simp
  qed
  then have "longest_literal c rest" using c(2) by (simp add: longest_literal_def)
  then show ?thesis using c(1) by blast
qed

lemma trimStart_trim: "trimStart (trim s) = trim s"
  by (simp add: trim_def trimStart_trimEnd)

lemma is_literal_nonempty: "is_literal p \<Longrightarrow> p \<noteq> []"
  by (cases p) (simp_all add: is_literal_def)

lemma parseFloat_longest:
  assumes "trimStart u = p @ w" and "longest_literal p w"
  shows "parseFloat u = literal_value p"
  using longest_literal_parse[OF assms(2)] by (simp add: parseFloat_def assms(1))

lemma parseFloat_no_literal:
  assumes "no_literal (trimStart u)"
  shows "parseFloat u = NaN"
  using no_literal_parse[OF assms] by (simp add: parseFloat_def)

lemma in_parentheses_nonempty: "in_parentheses c \<Longrightarrow> c \<noteq> []"
  by (cases c) (simp_all add: in_parentheses_def)

lemma parseNumberSafe_literal:
  assumes "\<not> in_parentheses (trim (remove_commas s))"
    and "trim (remove_commas s) = p @ w" and "longest_literal p w"
  shows "parseNumberSafe (Str s) = literal_value p"
proof -
  have l: "is_literal p" using assms(3) by (simp add: longest_literal_def)
  have n: "trim (remove_commas s) \<noteq> []" using is_literal_nonempty[OF l] assms(2) by simp
  have "trimStart (trim (remove_commas s)) = p @ w"
    using trimStart_trim[of "remove_commas s"] by (simp only: assms(2))
  then have "parseFloat (trim (remove_commas s)) = literal_value p"
    using assms(3) by (rule parseFloat_longest)
  then show ?thesis
    using assms(1) n literal_value_not_NaN[OF l]
    by (simp add: parseNumberSafe_def Let_def isNaN_def)
qed

lemma parseNumberSafe_without_literal:
  assumes "\<not> in_parentheses (trim (remove_commas s))" and "no_literal (trim (remove_commas s))"
  shows "parseNumberSafe (Str s) = Fin 0"
proof -
  have "no_literal (trimStart (trim (remove_commas s)))"
    using assms(2) by (simp only: trimStart_trim)
  then have "parseFloat (trim (remove_commas s)) = NaN" by (rule parseFloat_no_literal)
  then show ?thesis using assms(1) by (simp add: parseNumberSafe_def Let_def isNaN_def)
qed

lemma parseNumberSafe_parentheses_literal:
  assumes "in_parentheses (trim (remove_commas s))"
    and "trimStart (strip_parentheses (trim (remove_commas s))) = p @ w"
    and "longest_literal p w"
  shows "parseNumberSafe (Str s) = fneg (literal_value p)"
proof -
  have l: "is_literal p" using assms(3) by (simp add: longest_literal_def)
  have "parseFloat (strip_parentheses (trim (remove_commas s))) = literal_value p"
    using assms(2,3) by (rule parseFloat_longest)
  then show ?thesis
    using assms(1) in_parentheses_nonempty[OF assms(1)] literal_value_not_NaN[OF l]
    by (simp add: parseNumberSafe_def Let_def isNaN_def)
qed

lemma parseNumberSafe_parentheses_without_literal:
  assumes "in_parentheses (trim (remove_commas s))"
    and "no_literal (trimStart (strip_parentheses (trim (remove_commas s))))"
  shows "parseNumberSafe (Str s) = Fin 0"
proof -
  have "parseFloat (strip_parentheses (trim (remove_commas s))) = NaN"
    using assms(2) by (rule parseFloat_no_literal)
  then show ?thesis
    using assms(1) in_parentheses_nonempty[OF assms(1)]
    by (simp add: parseNumberSafe_def Let_def isNaN_def)
qed

lemma double_half: "to_double (1 / 2) = Fin (1 / 2)"
  using to_double_certificate[of "- 1" "1 / 2" "2 ^ 52"]
  by (simp add: pow2_def)

lemma double_three_halves: "to_double (3 / 2) = Fin (3 / 2)"
  using to_double_certificate[of 0 "3 / 2" "3 * 2 ^ 51"]
  by (simp add: pow2_def)

lemma parseNumberSafe_more_examples:
  "parseNumberSafe (Str ''1e3'') = Fin 1000"
  "parseNumberSafe (Str ''1E+3x'') = Fin 1000"
  "parseNumberSafe (Str ''5e-1'') = Fin (1 / 2)"
  "parseNumberSafe (Str ''1e'') = Fin 1"
  "parseNumberSafe (Str ''+5'') = Fin 5"
  "parseNumberSafe (Str ''.5'') = Fin (1 / 2)"
  "parseNumberSafe (Str ''5.'') = Fin 5"
  "parseNumberSafe (Str ''1.5.3'') = Fin (3 / 2)"
  "parseNumberSafe (Str ''12 34'') = Fin 12"
  "parseNumberSafe (Str ''Infinity'') = PInf"
  "parseNumberSafe (Str ''-Infinityx'') = NInf"
  "parseNumberSafe (Str ''(1e2)'') = Fin (- 100)"
  "parseNumberSafe (Str ''( 7)'') = Fin (- 7)"
  "parseNumberSafe (Str ''-'') = Fin 0"
  "parseNumberSafe (Str ''.'') = Fin 0"
  "parseNumberSafe (Str ''e5'') = Fin 0"
  by (simp_all add: parse_defs double_half double_three_halves to_double_numeral)

lemma literal_values:
  "literal_value ''12e2'' = Fin 1200" "literal_value ''-.5e1'' = Fin (- 5)"
  by (simp_all add: literal_value_def unsigned_value_def mantissa_value_def exponent_value_def
      exponent_letter_def is_digit_def dec_val_def digit_val_def pow10_def Let_def
      to_double_numeral to_double_neg_numeral)

lemmas literal_defs = is_literal_def is_unsigned_literal_def is_mantissa_def is_exponent_def
  exponent_letter_def digits_def is_digit_def Let_def

text \<open>
  C2, as stated: what is left after the commas, the surrounding whitespace and the
  parentheses are removed is parsed as a decimal number, and a failure of that parse gives
  zero. \<^verbatim>\<open>parseFloat\<close> reads the longest prefix that is a numeric literal and ignores what
  follows it: \<^verbatim>\<open>12abc\<close> is not a decimal number and gives 12.
\<close>

theorem parseNumberSafe_reads_prefix:
  "parseNumberSafe (Str ''12abc'') = Fin 12 \<and> decimal_number ''12abc'' = None"
  by (simp add: parseNumberSafe_examples decimal_number_12abc)

text \<open>
  C2, amended: \<^verbatim>\<open>parseNumberSafe\<close> gives zero for \<^verbatim>\<open>undefined\<close>, \<^verbatim>\<open>null\<close> and a string that is
  empty after trimming. Otherwise, with the commas and the surrounding white space removed:
  when the string is not wrapped in parentheses, the longest leading part of it that is a
  numeric literal (an optional sign, then \<^verbatim>\<open>Infinity\<close>, or digits with an optional fraction, or a
  fraction, with an optional exponent) gives the value, rounded to a double, and what
  follows that part is ignored; when no leading part is a numeric literal the result is
  zero. When the string is wrapped in parentheses the same holds for what is between them,
  after its leading white space, and the value is negated. Every string has either a longest
  leading literal or none. The result is never \<^verbatim>\<open>NaN\<close>, and the function is total: it raises on
  no input. In particular \<^verbatim>\<open>1,234.50\<close> gives 1234.5, \<^verbatim>\<open>(500)\<close> gives -500, the empty string and
  \<^verbatim>\<open>abc\<close> give 0, \<^verbatim>\<open>12abc\<close> gives 12, \<^verbatim>\<open>1e3\<close> gives 1000, \<^verbatim>\<open>+5\<close> and \<^verbatim>\<open>5.\<close> give 5, \<^verbatim>\<open>.5\<close> gives
  0.5, \<^verbatim>\<open>1.5.3\<close> gives 1.5, \<^verbatim>\<open>12 34\<close> gives 12 and \<^verbatim>\<open>Infinity\<close> gives the infinite double.
\<close>

theorem parseNumberSafe_rules:
  "parseNumberSafe Undefined = Fin 0 \<and> parseNumberSafe Null = Fin 0
   \<and> (trim s = [] \<longrightarrow> parseNumberSafe (Str s) = Fin 0)
   \<and> (\<not> in_parentheses (trim (remove_commas s)) \<and> trim (remove_commas s) = p @ w
        \<and> longest_literal p w \<longrightarrow>
        parseNumberSafe (Str s) = literal_value p)
   \<and> (\<not> in_parentheses (trim (remove_commas s)) \<and> no_literal (trim (remove_commas s)) \<longrightarrow>
        parseNumberSafe (Str s) = Fin 0)
   \<and> (in_parentheses (trim (remove_commas s))
        \<and> trimStart (strip_parentheses (trim (remove_commas s))) = p @ w
        \<and> longest_literal p w \<longrightarrow>
        parseNumberSafe (Str s) = fneg (literal_value p))
   \<and> (in_parentheses (trim (remove_commas s))
        \<and> no_literal (trimStart (strip_parentheses (trim (remove_commas s)))) \<longrightarrow>
        parseNumberSafe (Str s) = Fin 0)
   \<and> (no_literal u \<or> (\<exists>q r. u = q @ r \<and> longest_literal q r))
   \<and> parseNumberSafe v \<noteq> NaN
   \<and> parseNumberSafe (Str ''1,234.50'') = Fin (2469 / 2)
   \<and> parseNumberSafe (Str ''(500)'') = Fin (- 500)
   \<and> parseNumberSafe (Str []) = Fin 0
   \<and> parseNumberSafe (Str ''abc'') = Fin 0
   \<and> parseNumberSafe (Str ''12abc'') = Fin 12
   \<and> parseNumberSafe (Str ''1e3'') = Fin 1000
   \<and> parseNumberSafe (Str ''+5'') = Fin 5
   \<and> parseNumberSafe (Str ''.5'') = Fin (1 / 2)
   \<and> parseNumberSafe (Str ''5.'') = Fin 5
   \<and> parseNumberSafe (Str ''1.5.3'') = Fin (3 / 2)
   \<and> parseNumberSafe (Str ''12 34'') = Fin 12
   \<and> parseNumberSafe (Str ''Infinity'') = PInf"
proof -
  have a: "parseNumberSafe Undefined = Fin 0 \<and> parseNumberSafe Null = Fin 0"
    by (simp add: parseNumberSafe_def)
  have b: "trim s = [] \<longrightarrow> parseNumberSafe (Str s) = Fin 0"
    using parseNumberSafe_blank by blast
  have c: "\<not> in_parentheses (trim (remove_commas s)) \<and> trim (remove_commas s) = p @ w
        \<and> longest_literal p w \<longrightarrow>
        parseNumberSafe (Str s) = literal_value p"
    using parseNumberSafe_literal by blast
  have d: "\<not> in_parentheses (trim (remove_commas s)) \<and> no_literal (trim (remove_commas s)) \<longrightarrow>
        parseNumberSafe (Str s) = Fin 0"
    using parseNumberSafe_without_literal by blast
  have e: "in_parentheses (trim (remove_commas s))
        \<and> trimStart (strip_parentheses (trim (remove_commas s))) = p @ w
        \<and> longest_literal p w \<longrightarrow>
        parseNumberSafe (Str s) = fneg (literal_value p)"
    using parseNumberSafe_parentheses_literal by blast
  have f: "in_parentheses (trim (remove_commas s))
        \<and> no_literal (trimStart (strip_parentheses (trim (remove_commas s)))) \<longrightarrow>
        parseNumberSafe (Str s) = Fin 0"
    using parseNumberSafe_parentheses_without_literal by blast
  have g: "no_literal u \<or> (\<exists>q r. u = q @ r \<and> longest_literal q r)"
    by (rule literal_cases)
  have h: "parseNumberSafe v \<noteq> NaN" by (rule parseNumberSafe_not_NaN)
  have i: "parseNumberSafe (Str []) = Fin 0" using parseNumberSafe_examples(3) by simp
  show ?thesis
    using a b c d e f g h i parseNumberSafe_examples(1,2,4,5)
      parseNumberSafe_more_examples(1,5,6,7,8,9,10)
    by (simp only: simp_thms)
qed

theorem parseNumberSafe_rules_witness:
  "trim '' '' = [] \<and> parseNumberSafe (Str '' '') = Fin 0
   \<and> \<not> in_parentheses (trim (remove_commas ''1,2e2x''))
   \<and> trim (remove_commas ''1,2e2x'') = ''12e2'' @ ''x'' \<and> longest_literal ''12e2'' ''x''
   \<and> parseNumberSafe (Str ''1,2e2x'') = Fin 1200
   \<and> \<not> in_parentheses (trim (remove_commas ''xyz'')) \<and> no_literal (trim (remove_commas ''xyz''))
   \<and> parseNumberSafe (Str ''xyz'') = Fin 0
   \<and> in_parentheses (trim (remove_commas ''( -.5e1y)''))
   \<and> trimStart (strip_parentheses (trim (remove_commas ''( -.5e1y)''))) = ''-.5e1'' @ ''y''
   \<and> longest_literal ''-.5e1'' ''y''
   \<and> parseNumberSafe (Str ''( -.5e1y)'') = Fin 5
   \<and> in_parentheses (trim (remove_commas ''(xyz)''))
   \<and> no_literal (trimStart (strip_parentheses (trim (remove_commas ''(xyz)''))))
   \<and> parseNumberSafe (Str ''(xyz)'') = Fin 0"
proof -
  have t: "trim '' '' = []" by code_simp
  have c: "trim (remove_commas ''1,2e2x'') = ''12e2'' @ ''x''"
    "\<not> in_parentheses (trim (remove_commas ''1,2e2x''))"
    by code_simp+
  have l: "longest_literal ''12e2'' ''x''"
    by (simp add: longest_literal_def literal_defs)
  have x: "trim (remove_commas ''xyz'') = ''xyz''" by code_simp
  have n: "\<not> in_parentheses (trim (remove_commas ''xyz''))" by code_simp
  have nl: "no_literal ''xyz''"
    by (auto simp: no_literal_def le_Suc_eq literal_defs)
  have p: "in_parentheses (trim (remove_commas ''( -.5e1y)''))"
    "trimStart (strip_parentheses (trim (remove_commas ''( -.5e1y)''))) = ''-.5e1'' @ ''y''"
    by code_simp+
  have pl: "longest_literal ''-.5e1'' ''y''"
    by (simp add: longest_literal_def literal_defs)
  have q: "in_parentheses (trim (remove_commas ''(xyz)''))"
    "trimStart (strip_parentheses (trim (remove_commas ''(xyz)''))) = ''xyz''"
    by code_simp+
  have w1: "parseNumberSafe (Str '' '') = Fin 0"
    using parseNumberSafe_rules[of "'' ''" "[]" "[]" "[]" Undefined] t by blast
  have w2: "parseNumberSafe (Str ''1,2e2x'') = literal_value ''12e2''"
    using parseNumberSafe_rules[of "''1,2e2x''" "''12e2''" "''x''" "[]" Undefined] c l by blast
  have w3: "parseNumberSafe (Str ''xyz'') = Fin 0"
    using parseNumberSafe_rules[of "''xyz''" "[]" "[]" "[]" Undefined] n nl x by simp
  have w4: "parseNumberSafe (Str ''( -.5e1y)'') = fneg (literal_value ''-.5e1'')"
    using parseNumberSafe_rules[of "''( -.5e1y)''" "''-.5e1''" "''y''" "[]" Undefined] p pl by blast
  have w5: "parseNumberSafe (Str ''(xyz)'') = Fin 0"
    using parseNumberSafe_rules[of "''(xyz)''" "[]" "[]" "[]" Undefined] q nl by simp
  show ?thesis
    using t c l n nl x p pl q w1 w2 w3 w4 w5 literal_values by simp
qed

section \<open>Row heights\<close>

lemma fle_NInf [simp]: "fle NInf b \<longleftrightarrow> b \<noteq> NaN"
  by (cases b) simp_all

lemma fle_PInf [simp]: "fle a PInf \<longleftrightarrow> a \<noteq> NaN"
  by (cases a) simp_all

lemma fle_not_NaN: "fle a b \<Longrightarrow> a \<noteq> NaN \<and> b \<noteq> NaN"
  by (cases a; cases b) simp_all

lemma fle_refl: "a \<noteq> NaN \<Longrightarrow> fle a a"
  by (cases a) simp_all

lemma fadd_Fin_NaN [simp]: "fadd a (Fin c) = NaN \<longleftrightarrow> a = NaN"
  by (cases a) (simp_all add: to_double_not_NaN)

lemma fadd_mono: "fle a b \<Longrightarrow> fle (fadd a (Fin c)) (fadd b (Fin c))"
proof (cases a; cases b)
  fix x y assume "fle a b" "a = Fin x" "b = Fin y"
  then show ?thesis using to_double_mono[of "x + c" "y + c"] by simp
qed (simp_all add: to_double_not_NaN)

lemma Math_max_NaN [simp]: "Math_max a b = NaN \<longleftrightarrow> a = NaN \<or> b = NaN"
  by (cases a; cases b) simp_all

lemma Math_max_eq: "a \<noteq> NaN \<Longrightarrow> b \<noteq> NaN \<Longrightarrow> Math_max a b = (if flt a b then b else a)"
  by (cases a; cases b) simp_all

lemma fle_trans: "fle a b \<Longrightarrow> fle b c \<Longrightarrow> fle a c"
  by (cases a; cases b; cases c) simp_all

lemma flt_fle: "flt a b \<Longrightarrow> fle a b"
  by (cases a; cases b) simp_all

lemma not_flt_fle: "\<not> flt a b \<Longrightarrow> a \<noteq> NaN \<Longrightarrow> b \<noteq> NaN \<Longrightarrow> fle b a"
  by (cases a; cases b) simp_all

lemma Math_max_mono:
  assumes ab: "fle a b" and cd: "fle c d"
  shows "fle (Math_max a c) (Math_max b d)"
proof -
  have n: "a \<noteq> NaN" "b \<noteq> NaN" "c \<noteq> NaN" "d \<noteq> NaN"
    using fle_not_NaN[OF ab] fle_not_NaN[OF cd] by blast+
  have l: "Math_max a c = (if flt a c then c else a)" by (rule Math_max_eq[OF n(1) n(3)])
  have r: "Math_max b d = (if flt b d then d else b)" by (rule Math_max_eq[OF n(2) n(4)])
  show ?thesis
  proof (cases "flt a c")
    case ac: True
    show ?thesis
    proof (cases "flt b d")
      case True
      then show ?thesis using ac cd by (simp only: l r if_True)
    next
      case False
      have "fle c b" by (rule fle_trans[OF cd not_flt_fle[OF False n(2) n(4)]])
      then show ?thesis using ac False by (simp only: l r if_True if_False)
    qed
  next
    case ac: False
    show ?thesis
    proof (cases "flt b d")
      case True
      have "fle a d" by (rule fle_trans[OF ab flt_fle[OF True]])
      then show ?thesis using ac True by (simp only: l r if_True if_False)
    next
      case False
      then show ?thesis using ac ab by (simp only: l r if_False)
    qed
  qed
qed

lemma Math_max_lower: "a \<noteq> NaN \<Longrightarrow> b \<noteq> NaN \<Longrightarrow> fle b (Math_max a b)"
  using flt_fle[of a b] fle_refl[of b] not_flt_fle[of a b] by (simp add: Math_max_eq)

lemma padded_mono:
  "fle h1 h2 \<Longrightarrow> fle (Math_max (fadd h1 (Fin p)) (Fin m)) (Math_max (fadd h2 (Fin p)) (Fin m))"
  by (rule Math_max_mono[OF fadd_mono]) simp_all

lemma padded_lower: "h \<noteq> NaN \<Longrightarrow> fle (Fin m) (Math_max (fadd h (Fin p)) (Fin m))"
  by (rule Math_max_lower) simp_all

lemma cells_mono:
  "list_all2 fle hs1 hs2 \<Longrightarrow> fle a1 a2 \<Longrightarrow>
   fle (foldl (\<lambda>rowHeight h. Math_max rowHeight (fadd h (Fin p))) a1 hs1)
       (foldl (\<lambda>rowHeight h. Math_max rowHeight (fadd h (Fin p))) a2 hs2)"
proof (induction hs1 hs2 arbitrary: a1 a2 rule: list_all2_induct)
  case Nil
  then show ?case by simp
next
  case (Cons x xs y ys)
  have "fle (Math_max a1 (fadd x (Fin p))) (Math_max a2 (fadd y (Fin p)))"
    by (rule Math_max_mono[OF Cons.prems fadd_mono[OF Cons.hyps(1)]])
  from Cons.IH[OF this] show ?case by (simp only: foldl_Cons)
qed

lemma cells_not_NaN:
  "NaN \<notin> set hs \<Longrightarrow> a \<noteq> NaN \<Longrightarrow>
   foldl (\<lambda>rowHeight h. Math_max rowHeight (fadd h (Fin p))) a hs \<noteq> NaN"
proof (induction hs arbitrary: a)
  case Nil
  then show ?case by simp
next
  case (Cons h hs)
  have "h \<noteq> NaN" "NaN \<notin> set hs" using Cons.prems(1) by auto
  then have "Math_max a (fadd h (Fin p)) \<noteq> NaN" using Cons.prems(2) by simp
  from Cons.IH[OF \<open>NaN \<notin> set hs\<close> this] show ?case by simp
qed

lemma row_heights_append: "row_heights (xs @ ys) = row_heights xs @ row_heights ys"
  by (induction xs rule: row_heights.induct) simp_all

lemma row_heights_plain:
  "set ds \<subseteq> {BottomBar, Logo, Watermark, ContinuationTitle} \<union> range TableHeader \<Longrightarrow>
   row_heights ds = []"
  by (induction ds rule: row_heights.induct) auto

lemma table_rows_heights:
  assumes "set pre \<subseteq> {BottomBar, Logo, Watermark, ContinuationTitle} \<union> range TableHeader"
    and "set post \<subseteq> {BottomBar, Logo, Watermark, ContinuationTitle} \<union> range TableHeader"
  shows "row_heights (fst (table_rows limit pre post c y hs)) = hs"
proof (induction hs arbitrary: y)
  case Nil
  then show ?case by simp
next
  case (Cons h hs)
  show ?case
    by (simp add: Let_def row_heights_append row_heights_plain[OF assms(1)]
        row_heights_plain[OF assms(2)] Cons.IH)
qed

lemma single_cell_rows:
  "row_heights (fst (PNB_rows H y0 hs)) = map PNB_rowHeight hs"
  "row_heights (fst (BANDHAN_rows H y0 hs)) = map BANDHAN_rowHeight hs"
  "row_heights (fst (CENTRAL_rows H y0 hs)) = map CENTRAL_rowHeight hs"
  "row_heights (fst (AXIS_rows H y0 hs)) = map AXIS_rowHeight hs"
  "row_heights (fst (HDFC_rows H y0 hs)) = map HDFC_rowHeight hs"
  "row_heights (fst (IDFC_rows H y0 hs)) = map IDFC_rowHeight hs"
  "row_heights (fst (SBI_rows H y0 hss)) = map SBI_rowHeight hss"
  "row_heights (fst (ICICI_rows H mb y0 hss)) = map ICICI_rowHeight hss"
  by (simp_all add: PNB_rows_def BANDHAN_rows_def CENTRAL_rows_def AXIS_rows_def HDFC_rows_def
      IDFC_rows_def SBI_rows_def ICICI_rows_def table_rows_heights)

text \<open>
  C7, as stated: the height of an emitted row is the larger of the measured text height and
  the minimum row height of the template. Every template adds a padding to the measured
  height before it takes the maximum: in PNB a narration that measures 20 gives a row of
  height 28, and the larger of 20 and the minimum 22 is 22.
\<close>

theorem row_height_without_padding:
  "row_heights (fst (PNB_rows (Fin 800) (Fin 100) [Fin 20])) = [Fin 28]
   \<and> Math_max (Fin 20) (Fin 22) = Fin 22"
  by (simp add: single_cell_rows PNB_rowHeight_def to_double_numeral)

text \<open>
  C7, amended: the heights of the emitted rows are, in order, those of the entries, and the
  height of a row is the larger of the measured height plus the padding of the template and
  the minimum row height of the template: padding 8 and minimum 22 in PNB, HDFC and IDFC,
  10 and 28 in BANDHAN, 10 and 24 in CENTRAL, 8 and 18 in AXIS; in SBI the largest of the
  cell heights plus 10, and at least 28; in ICICI the largest of the cell heights plus 6,
  starting from 0, with no minimum. The row height is monotonic in the measured height, in
  every cell for SBI and ICICI, and for a measured height that is a number it is not below
  the minimum of the template.
\<close>

theorem row_height_padded:
  "row_heights (fst (PNB_rows H y0 hs)) = map (\<lambda>h. Math_max (fadd h (Fin 8)) (Fin 22)) hs
   \<and> row_heights (fst (BANDHAN_rows H y0 hs)) = map (\<lambda>h. Math_max (fadd h (Fin 10)) (Fin 28)) hs
   \<and> row_heights (fst (CENTRAL_rows H y0 hs)) = map (\<lambda>h. Math_max (fadd h (Fin 10)) (Fin 24)) hs
   \<and> row_heights (fst (AXIS_rows H y0 hs)) = map (\<lambda>h. Math_max (fadd h (Fin 8)) (Fin 18)) hs
   \<and> row_heights (fst (HDFC_rows H y0 hs)) = map (\<lambda>h. Math_max (fadd h (Fin 8)) (Fin 22)) hs
   \<and> row_heights (fst (IDFC_rows H y0 hs)) = map (\<lambda>h. Math_max (fadd h (Fin 8)) (Fin 22)) hs
   \<and> row_heights (fst (SBI_rows H y0 hss)) =
       map (\<lambda>cells. Math_max (foldl (\<lambda>r h. Math_max r (fadd h (Fin 10))) (Fin 0) cells) (Fin 28)) hss
   \<and> row_heights (fst (ICICI_rows H mb y0 hss)) =
       map (\<lambda>cells. foldl (\<lambda>r h. Math_max r (fadd h (Fin 6))) (Fin 0) cells) hss
   \<and> (fle h1 h2 \<longrightarrow>
        fle (PNB_rowHeight h1) (PNB_rowHeight h2)
        \<and> fle (BANDHAN_rowHeight h1) (BANDHAN_rowHeight h2)
        \<and> fle (CENTRAL_rowHeight h1) (CENTRAL_rowHeight h2)
        \<and> fle (AXIS_rowHeight h1) (AXIS_rowHeight h2)
        \<and> fle (HDFC_rowHeight h1) (HDFC_rowHeight h2)
        \<and> fle (IDFC_rowHeight h1) (IDFC_rowHeight h2))
   \<and> (list_all2 fle cells1 cells2 \<longrightarrow>
        fle (SBI_rowHeight cells1) (SBI_rowHeight cells2)
        \<and> fle (ICICI_rowHeight cells1) (ICICI_rowHeight cells2))
   \<and> (h \<noteq> NaN \<longrightarrow>
        fle (Fin 22) (PNB_rowHeight h) \<and> fle (Fin 28) (BANDHAN_rowHeight h)
        \<and> fle (Fin 24) (CENTRAL_rowHeight h) \<and> fle (Fin 18) (AXIS_rowHeight h)
        \<and> fle (Fin 22) (HDFC_rowHeight h) \<and> fle (Fin 22) (IDFC_rowHeight h))
   \<and> (NaN \<notin> set cells \<longrightarrow> fle (Fin 28) (SBI_rowHeight cells))"
proof -
  have r: "row_heights (fst (PNB_rows H y0 hs)) = map (\<lambda>h. Math_max (fadd h (Fin 8)) (Fin 22)) hs
   \<and> row_heights (fst (BANDHAN_rows H y0 hs)) = map (\<lambda>h. Math_max (fadd h (Fin 10)) (Fin 28)) hs
   \<and> row_heights (fst (CENTRAL_rows H y0 hs)) = map (\<lambda>h. Math_max (fadd h (Fin 10)) (Fin 24)) hs
   \<and> row_heights (fst (AXIS_rows H y0 hs)) = map (\<lambda>h. Math_max (fadd h (Fin 8)) (Fin 18)) hs
   \<and> row_heights (fst (HDFC_rows H y0 hs)) = map (\<lambda>h. Math_max (fadd h (Fin 8)) (Fin 22)) hs
   \<and> row_heights (fst (IDFC_rows H y0 hs)) = map (\<lambda>h. Math_max (fadd h (Fin 8)) (Fin 22)) hs
   \<and> row_heights (fst (SBI_rows H y0 hss)) =
       map (\<lambda>cells. Math_max (foldl (\<lambda>r h. Math_max r (fadd h (Fin 10))) (Fin 0) cells) (Fin 28)) hss
   \<and> row_heights (fst (ICICI_rows H mb y0 hss)) =
       map (\<lambda>cells. foldl (\<lambda>r h. Math_max r (fadd h (Fin 6))) (Fin 0) cells) hss"
    by (simp add: single_cell_rows PNB_rowHeight_def BANDHAN_rowHeight_def CENTRAL_rowHeight_def
        AXIS_rowHeight_def HDFC_rowHeight_def IDFC_rowHeight_def SBI_rowHeight_def
        ICICI_rowHeight_def)
  have m: "fle h1 h2 \<longrightarrow>
        fle (PNB_rowHeight h1) (PNB_rowHeight h2)
        \<and> fle (BANDHAN_rowHeight h1) (BANDHAN_rowHeight h2)
        \<and> fle (CENTRAL_rowHeight h1) (CENTRAL_rowHeight h2)
        \<and> fle (AXIS_rowHeight h1) (AXIS_rowHeight h2)
        \<and> fle (HDFC_rowHeight h1) (HDFC_rowHeight h2)
        \<and> fle (IDFC_rowHeight h1) (IDFC_rowHeight h2)"
    by (simp add: padded_mono PNB_rowHeight_def BANDHAN_rowHeight_def CENTRAL_rowHeight_def
        AXIS_rowHeight_def HDFC_rowHeight_def IDFC_rowHeight_def)
  have z: "fle (Fin 0) (Fin 0)" "fle (Fin 28) (Fin 28)" by simp_all
  have c: "list_all2 fle cells1 cells2 \<longrightarrow>
        fle (SBI_rowHeight cells1) (SBI_rowHeight cells2)
        \<and> fle (ICICI_rowHeight cells1) (ICICI_rowHeight cells2)"
    unfolding SBI_rowHeight_def ICICI_rowHeight_def
    using cells_mono[OF _ z(1)] Math_max_mono[OF _ z(2)] by blast
  have l: "h \<noteq> NaN \<longrightarrow>
        fle (Fin 22) (PNB_rowHeight h) \<and> fle (Fin 28) (BANDHAN_rowHeight h)
        \<and> fle (Fin 24) (CENTRAL_rowHeight h) \<and> fle (Fin 18) (AXIS_rowHeight h)
        \<and> fle (Fin 22) (HDFC_rowHeight h) \<and> fle (Fin 22) (IDFC_rowHeight h)"
    by (simp add: padded_lower PNB_rowHeight_def BANDHAN_rowHeight_def CENTRAL_rowHeight_def
        AXIS_rowHeight_def HDFC_rowHeight_def IDFC_rowHeight_def)
  have s: "NaN \<notin> set cells \<longrightarrow> fle (Fin 28) (SBI_rowHeight cells)"
    unfolding SBI_rowHeight_def
    using cells_not_NaN[of cells "Fin 0" 10] Math_max_lower[of _ "Fin 28"] by blast
  from r m c l s show ?thesis by (simp only: simp_thms)
qed

theorem row_height_padded_witness:
  "fle (Fin 10) (Fin 20)
   \<and> fle (PNB_rowHeight (Fin 10)) (PNB_rowHeight (Fin 20))
   \<and> fle (BANDHAN_rowHeight (Fin 10)) (BANDHAN_rowHeight (Fin 20))
   \<and> fle (CENTRAL_rowHeight (Fin 10)) (CENTRAL_rowHeight (Fin 20))
   \<and> fle (AXIS_rowHeight (Fin 10)) (AXIS_rowHeight (Fin 20))
   \<and> fle (HDFC_rowHeight (Fin 10)) (HDFC_rowHeight (Fin 20))
   \<and> fle (IDFC_rowHeight (Fin 10)) (IDFC_rowHeight (Fin 20))
   \<and> list_all2 fle [Fin 10, Fin 12] [Fin 20, Fin 12]
   \<and> fle (SBI_rowHeight [Fin 10, Fin 12]) (SBI_rowHeight [Fin 20, Fin 12])
   \<and> fle (ICICI_rowHeight [Fin 10, Fin 12]) (ICICI_rowHeight [Fin 20, Fin 12])
   \<and> Fin 20 \<noteq> NaN
   \<and> fle (Fin 22) (PNB_rowHeight (Fin 20)) \<and> fle (Fin 28) (BANDHAN_rowHeight (Fin 20))
   \<and> fle (Fin 24) (CENTRAL_rowHeight (Fin 20)) \<and> fle (Fin 18) (AXIS_rowHeight (Fin 20))
   \<and> fle (Fin 22) (HDFC_rowHeight (Fin 20)) \<and> fle (Fin 22) (IDFC_rowHeight (Fin 20))
   \<and> NaN \<notin> set [Fin 20, Fin 12]
   \<and> fle (Fin 28) (SBI_rowHeight [Fin 20, Fin 12])"
  using row_height_padded[of _ _ _ _ _ "Fin 10" "Fin 20" "[Fin 10, Fin 12]" "[Fin 20, Fin 12]"
      "Fin 20" "[Fin 20, Fin 12]"]
  by simp

section \<open>Page breaks\<close>

lemma first_rows_plain:
  "set ds \<subseteq> {BottomBar, Logo, Watermark, ContinuationTitle} \<union> range TableHeader \<Longrightarrow>
   first_rows b (ds @ es) = first_rows b es"
  by (induction b ds rule: first_rows.induct) auto

lemma later_rows_plain:
  "set ds \<subseteq> {BottomBar, Logo, Watermark, ContinuationTitle} \<union> range TableHeader \<Longrightarrow>
   later_rows b (ds @ es) = later_rows b es"
  by (induction b ds rule: later_rows.induct) auto

lemma exceeds_plain:
  "set ds \<subseteq> {BottomBar, Logo, Watermark, ContinuationTitle} \<union> range TableHeader \<Longrightarrow>
   d \<in> set ds \<Longrightarrow> \<not> exceeds limit d"
  by (auto simp: exceeds_def)

lemma table_rows_first:
  assumes "set pre \<subseteq> {BottomBar, Logo, Watermark, ContinuationTitle} \<union> range TableHeader"
    and "set post \<subseteq> {BottomBar, Logo, Watermark, ContinuationTitle} \<union> range TableHeader"
  shows "set (first_rows False (fst (table_rows limit pre post c y hs))) \<subseteq> {c}"
proof (induction hs arbitrary: y)
  case Nil
  then show ?case by simp
next
  case (Cons h hs)
  show ?case
    using Cons.IH
    by (simp add: Let_def first_rows_plain[OF assms(1)] first_rows_plain[OF assms(2)])
qed

lemma table_rows_later:
  assumes "set pre \<subseteq> {BottomBar, Logo, Watermark, ContinuationTitle} \<union> range TableHeader"
    and "set post \<subseteq> {BottomBar, Logo, Watermark, ContinuationTitle} \<union> range TableHeader"
  shows "\<forall>d \<in> set (later_rows False (fst (table_rows limit pre post c y hs))). \<not> exceeds limit d"
proof (induction hs arbitrary: y)
  case Nil
  then show ?case by simp
next
  case (Cons h hs)
  show ?case
    using Cons.IH
    by (simp add: Let_def later_rows_plain[OF assms(1)] later_rows_plain[OF assms(2)] exceeds_def)
qed

lemma table_rows_fit:
  assumes "set pre \<subseteq> {BottomBar, Logo, Watermark, ContinuationTitle} \<union> range TableHeader"
    and "set post \<subseteq> {BottomBar, Logo, Watermark, ContinuationTitle} \<union> range TableHeader"
    and "\<forall>h \<in> set hs. \<not> fgt (fadd c h) limit"
  shows "\<forall>d \<in> set (fst (table_rows limit pre post c y hs)). \<not> exceeds limit d"
  using assms(3)
proof (induction hs arbitrary: y)
  case Nil
  then show ?case by simp
next
  case (Cons h hs)
  have r: "\<And>y. \<forall>d \<in> set (fst (table_rows limit pre post c y hs)). \<not> exceeds limit d"
    using Cons.IH Cons.prems by simp
  have h: "\<not> fgt (fadd c h) limit" using Cons.prems by simp
  have p: "\<forall>d \<in> set pre. \<not> exceeds limit d" "\<forall>d \<in> set post. \<not> exceeds limit d"
    using exceeds_plain[OF assms(1)] exceeds_plain[OF assms(2)] by blast+
  have a: "\<not> exceeds limit AddPage" by (simp add: exceeds_def)
  show ?case
  proof (cases "fgt (fadd y h) limit")
    case True
    then have "fst (table_rows limit pre post c y (h # hs)) =
        pre @ [AddPage] @ post @ [Row c h] @ fst (table_rows limit pre post c (fadd c h) hs)"
      by (simp add: Let_def)
    moreover have "\<not> exceeds limit (Row c h)" using h by (simp add: exceeds_def)
    ultimately show ?thesis using r[of "fadd c h"] p a by auto
  next
    case False
    then have "fst (table_rows limit pre post c y (h # hs)) =
        Row y h # fst (table_rows limit pre post c (fadd y h) hs)"
      by (simp add: Let_def)
    moreover have "\<not> exceeds limit (Row y h)" using False by (simp add: exceeds_def)
    ultimately show ?thesis using r[of "fadd y h"] by auto
  qed
qed

lemma table_rows_invariant:
  assumes "set pre \<subseteq> {BottomBar, Logo, Watermark, ContinuationTitle} \<union> range TableHeader"
    and "set post \<subseteq> {BottomBar, Logo, Watermark, ContinuationTitle} \<union> range TableHeader"
  shows "page_break_invariant limit c hs (fst (table_rows limit pre post c y hs))"
  unfolding page_break_invariant_def
  using table_rows_first[OF assms] table_rows_later[OF assms] table_rows_fit[OF assms]
  by blast

lemmas rows_defs = PNB_rows_def BANDHAN_rows_def CENTRAL_rows_def ICICI_rows_def SBI_rows_def
  AXIS_rows_def HDFC_rows_def IDFC_rows_def PNB_rowHeight_def BANDHAN_rowHeight_def
  CENTRAL_rowHeight_def ICICI_rowHeight_def SBI_rowHeight_def AXIS_rowHeight_def
  HDFC_rowHeight_def IDFC_rowHeight_def

lemma continuation_offsets:
  "fadd (Fin 40) (Fin 40) = Fin 80" "fadd (Fin 100) (Fin 24) = Fin 124"
  "fadd (Fin 100) (Fin 30) = Fin 130" "fadd (Fin 40) (Fin 20) = Fin 60"
  "fadd (Fin 50) (Fin 30) = Fin 80" "fadd (Fin 60) (Fin 24) = Fin 84"
  "fadd (Fin 80) (Fin 20) = Fin 100"
  by (simp_all add: to_double_numeral)

text \<open>
  C8, as stated: no emitted row reaches below the limit of the page. After a page break
  the row is drawn at the continuation offset without a second check: in PNB, with a page
  height of 800 and the position 700, a narration that measures 1000 gives a row of height
  1008 that is drawn at 80 on the new page and ends below the limit 720.
\<close>

theorem tall_row_below_limit:
  "fst (PNB_rows (Fin 800) (Fin 700) [Fin 1000]) =
     [AddPage, ContinuationTitle, Row (Fin 80) (Fin 1008)]
   \<and> exceeds (fsub (Fin 800) (Fin 80)) (Row (Fin 80) (Fin 1008))"
  by (simp add: PNB_rows_def PNB_rowHeight_def Let_def fsub_def fgt_def exceeds_def
      to_double_numeral)

text \<open>
  C8, amended: in every template the first row of every continuation page is drawn at the
  continuation offset of the template (80 in PNB and SBI, 124 in BANDHAN, 130 in CENTRAL,
  60 in ICICI, 84 in AXIS, 100 in HDFC, 40 in IDFC); every row that is not the first of a
  continuation page ends at the limit of the template or above; and when every row would fit
  between the continuation offset and the limit, no row at all reaches below the limit.
\<close>

theorem page_break_rows:
  "page_break_invariant (fsub H (Fin 80)) (Fin 80) (map PNB_rowHeight hs)
     (fst (PNB_rows H y0 hs))
   \<and> page_break_invariant (fsub H (Fin 120)) (Fin 124) (map BANDHAN_rowHeight hs)
       (fst (BANDHAN_rows H y0 hs))
   \<and> page_break_invariant (fsub H (Fin 80)) (Fin 130) (map CENTRAL_rowHeight hs)
       (fst (CENTRAL_rows H y0 hs))
   \<and> page_break_invariant (fsub (fsub H mb) (Fin 60)) (Fin 60) (map ICICI_rowHeight hss)
       (fst (ICICI_rows H mb y0 hss))
   \<and> page_break_invariant (fsub H (Fin 80)) (Fin 80) (map SBI_rowHeight hss)
       (fst (SBI_rows H y0 hss))
   \<and> page_break_invariant (fsub H (Fin 100)) (Fin 84) (map AXIS_rowHeight hs)
       (fst (AXIS_rows H y0 hs))
   \<and> page_break_invariant (fsub H (Fin 250)) (Fin 100) (map HDFC_rowHeight hs)
       (fst (HDFC_rows H y0 hs))
   \<and> page_break_invariant (fsub H (Fin 80)) (Fin 40) (map IDFC_rowHeight hs)
       (fst (IDFC_rows H y0 hs))"
  unfolding PNB_rows_def BANDHAN_rows_def CENTRAL_rows_def ICICI_rows_def SBI_rows_def
    AXIS_rows_def HDFC_rows_def IDFC_rows_def continuation_offsets
  by (intro conjI table_rows_invariant) simp_all

theorem page_break_rows_witness:
  "fst (PNB_rows (Fin 800) (Fin 700) [Fin 10, Fin 10]) =
     [AddPage, ContinuationTitle, Row (Fin 80) (Fin 22), Row (Fin 102) (Fin 22)]
   \<and> first_rows False [AddPage, ContinuationTitle, Row (Fin 80) (Fin 22), Row (Fin 102) (Fin 22)]
       = [Fin 80]
   \<and> later_rows False [AddPage, ContinuationTitle, Row (Fin 80) (Fin 22), Row (Fin 102) (Fin 22)]
       = [Row (Fin 102) (Fin 22)]
   \<and> \<not> exceeds (fsub (Fin 800) (Fin 80)) (Row (Fin 102) (Fin 22))
   \<and> \<not> fgt (fadd (Fin 80) (PNB_rowHeight (Fin 10))) (fsub (Fin 800) (Fin 80))
   \<and> \<not> exceeds (fsub (Fin 800) (Fin 80)) (Row (Fin 80) (Fin 22))
   \<and> fst (BANDHAN_rows (Fin 800) (Fin 700) [Fin 10, Fin 10]) =
       [BottomBar, AddPage, Logo, TableHeader (Fin 100), Row (Fin 124) (Fin 28),
        Row (Fin 152) (Fin 28)]
   \<and> \<not> fgt (fadd (Fin 124) (BANDHAN_rowHeight (Fin 10))) (fsub (Fin 800) (Fin 120))
   \<and> fst (CENTRAL_rows (Fin 800) (Fin 700) [Fin 10, Fin 10]) =
       [AddPage, Logo, TableHeader (Fin 100), Row (Fin 130) (Fin 24), Row (Fin 154) (Fin 24)]
   \<and> \<not> fgt (fadd (Fin 130) (CENTRAL_rowHeight (Fin 10))) (fsub (Fin 800) (Fin 80))
   \<and> fst (ICICI_rows (Fin 800) (Fin 50) (Fin 700) [[Fin 10], [Fin 10]]) =
       [AddPage, TableHeader (Fin 40), Row (Fin 60) (Fin 16), Row (Fin 76) (Fin 16)]
   \<and> \<not> fgt (fadd (Fin 60) (ICICI_rowHeight [Fin 10])) (fsub (fsub (Fin 800) (Fin 50)) (Fin 60))
   \<and> fst (SBI_rows (Fin 800) (Fin 700) [[Fin 10], [Fin 10]]) =
       [AddPage, TableHeader (Fin 50), Row (Fin 80) (Fin 28), Row (Fin 108) (Fin 28)]
   \<and> \<not> fgt (fadd (Fin 80) (SBI_rowHeight [Fin 10])) (fsub (Fin 800) (Fin 80))
   \<and> fst (AXIS_rows (Fin 800) (Fin 700) [Fin 10, Fin 10]) =
       [AddPage, Watermark, TableHeader (Fin 60), Row (Fin 84) (Fin 18), Row (Fin 102) (Fin 18)]
   \<and> \<not> fgt (fadd (Fin 84) (AXIS_rowHeight (Fin 10))) (fsub (Fin 800) (Fin 100))
   \<and> fst (HDFC_rows (Fin 800) (Fin 700) [Fin 10, Fin 10]) =
       [AddPage, Watermark, Logo, TableHeader (Fin 80), Row (Fin 100) (Fin 22),
        Row (Fin 122) (Fin 22)]
   \<and> \<not> fgt (fadd (Fin 100) (HDFC_rowHeight (Fin 10))) (fsub (Fin 800) (Fin 250))
   \<and> fst (IDFC_rows (Fin 800) (Fin 700) [Fin 10, Fin 10]) =
       [AddPage, Watermark, Row (Fin 40) (Fin 22), Row (Fin 62) (Fin 22)]
   \<and> \<not> fgt (fadd (Fin 40) (IDFC_rowHeight (Fin 10))) (fsub (Fin 800) (Fin 80))"
  using page_break_rows[of "Fin 800" "[Fin 10, Fin 10]" "Fin 700" "Fin 50" "[[Fin 10], [Fin 10]]"]
  by (simp add: rows_defs Let_def fsub_def fgt_def exceeds_def to_double_numeral
      page_break_invariant_def)

section \<open>Totals\<close>

















text \<open>
  The summary of BANDHAN reads the credit and the debit of an entry and nothing else; its
  rows (lines 946 to 950) also show an entry that carries an amount and an indicator. Such an
  entry adds nothing to the totals.
\<close>

lemma BANDHAN_summary_without_amount:
  "BANDHAN_summaryValues
     [[(''amount'', JNum (Fin 100)), (''dr_cr'', JStr ''Dr''), (''balance'', JNum (Fin 900))]]
   = [Fixed2 (Fin 900), Fixed2 (Fin 0), Fixed2 (Fin 0), Fixed2 (Fin 900)]"
  by (simp add: BANDHAN_summaryValues_def BANDHAN_summary_def BANDHAN_entry_def Let_def fld_def
      js_truthy_def Number_def)





end
